theory Spec2Isabelle
  imports Complex_Main "HOL-Library.AList" "HOL-Library.Multiset"
begin

section \<open>JavaScript numbers\<close>

text \<open>
  The dashboard script \<^verbatim>\<open>app.js\<close> loads a document of metric series and redraws three
  chart views whenever a filter control changes. The embedding below follows the script
  function by function, and starts with the numbers the script computes with.

  A JavaScript number is an IEEE 754 double: a finite value, one of the two infinities
  or \<^verbatim>\<open>NaN\<close>. A finite double is kept as the real number it stands for. (The two zeros
  are one value here: the script neither inspects the sign of a zero nor divides by
  one, see \<open>normalizePoint\<close>.)
\<close>

datatype number = Finite real | Infinity | NegInfinity | NaN

text \<open>
  Every arithmetic operation returns the double nearest to the exact result, a tie
  going to the double with the even significand (ECMA-262, the Number type; IEEE 754
  roundTiesToEven). \<open>round_even\<close> is that rounding on the integers.
\<close>

definition round_even :: "real \<Rightarrow> int" where
  "round_even t =
     (let n = \<lfloor>t\<rfloor>; f = t - of_int n
      in if f < 1 / 2 then n else if 1 / 2 < f then n + 1 else if even n then n else n + 1)"

text \<open>
  The binary exponent of a positive real \<open>t\<close>: the \<open>e\<close> with \<open>2\<^sup>e \<le> t < 2\<^sup>e\<^sup>+\<^sup>1\<close>, found by
  halving or doubling \<open>t\<close> until it lies between 1 and 2.
\<close>

function exponent :: "real \<Rightarrow> int" where
  "exponent t =
     (if t \<le> 0 then 0
      else if t < 1 then exponent (2 * t) - 1
      else if 2 \<le> t then exponent (t / 2) + 1
      else 0)"
  by pat_completeness auto

termination
proof (relation "measure (\<lambda>t. nat \<bar>\<lfloor>log 2 t\<rfloor>\<bar>)")
  show "wf (measure (\<lambda>t. nat \<bar>\<lfloor>log 2 t\<rfloor>\<bar>))" by simp
next
  fix t :: real
  assume a: "\<not> t \<le> 0" "t < 1"
  have l: "log 2 (2 * t) = 1 + log 2 t"
    using a by (simp add: log_mult)
  define n where "n = \<lfloor>log 2 t\<rfloor>"
  have "log 2 t < 0" using a by simp
  then have "n < 0" by (simp add: n_def floor_less_iff)
  moreover have "\<lfloor>log 2 (2 * t)\<rfloor> = 1 + n"
    unfolding l n_def by simp
  ultimately have "nat \<bar>\<lfloor>log 2 (2 * t)\<rfloor>\<bar> < nat \<bar>n\<bar>"
    by simp
  then show "(2 * t, t) \<in> measure (\<lambda>t. nat \<bar>\<lfloor>log 2 t\<rfloor>\<bar>)"
    by (simp add: n_def)
next
  fix t :: real
  assume a: "\<not> t \<le> 0" "\<not> t < 1" "2 \<le> t"
  have l: "log 2 (t / 2) = log 2 t - 1"
    using a by (simp add: log_divide)
  define n where "n = \<lfloor>log 2 t\<rfloor>"
  have "1 \<le> log 2 t" using a by (simp add: le_log_iff)
  then have "1 \<le> n" by (simp add: n_def le_floor_iff)
  moreover have "\<lfloor>log 2 (t / 2)\<rfloor> = n - 1"
    unfolding l n_def by simp
  ultimately have "nat \<bar>\<lfloor>log 2 (t / 2)\<rfloor>\<bar> < nat \<bar>n\<bar>"
    by simp
  then show "(t / 2, t) \<in> measure (\<lambda>t. nat \<bar>\<lfloor>log 2 t\<rfloor>\<bar>)"
    by (simp add: n_def)
qed

text \<open>
  A double has a significand of 53 bits and an exponent from \<open>-1022\<close> to \<open>1023\<close>. Around
  \<open>t\<close> the doubles are the multiples of \<open>ulp t\<close>, which below \<open>2\<^sup>-\<^sup>1\<^sup>0\<^sup>2\<^sup>2\<close> (the subnormal
  doubles) stays \<open>2\<^sup>-\<^sup>1\<^sup>0\<^sup>7\<^sup>4\<close>; \<open>nearest t\<close> is the multiple nearest to \<open>t\<close>. A result
  whose nearest multiple reaches \<open>2\<^sup>1\<^sup>0\<^sup>2\<^sup>4\<close> in size overflows to an infinity.
\<close>

definition min_exponent :: int where
  "min_exponent = - 1022"

definition max_exponent :: int where
  "max_exponent = 1023"

definition ulp :: "real \<Rightarrow> real" where
  "ulp t = 2 powi (max (exponent \<bar>t\<bar>) min_exponent - 52)"

definition nearest :: "real \<Rightarrow> real" where
  "nearest t = of_int (round_even (t / ulp t)) * ulp t"

definition toDouble :: "real \<Rightarrow> number" where
  "toDouble t =
     (let r = nearest t
      in if 2 powi (max_exponent + 1) \<le> r then Infinity
         else if r \<le> - (2 powi (max_exponent + 1)) then NegInfinity
         else Finite r)"

text \<open>The reals that are doubles: those that rounding leaves as they are.\<close>

definition is_double :: "real \<Rightarrow> bool" where
  "is_double t \<longleftrightarrow> toDouble t = Finite t"

text \<open>
  The operators \<^verbatim>\<open>+\<close>, \<^verbatim>\<open>-\<close>, \<^verbatim>\<open>*\<close> and \<^verbatim>\<open>/\<close> on numbers (ECMA-262: Number::add,
  Number::subtract, Number::multiply, Number::divide). A quotient by zero has the sign
  of its numerator, the zero counting as positive.
\<close>

fun Number_add :: "number \<Rightarrow> number \<Rightarrow> number" where
  "Number_add (Finite s) (Finite t) = toDouble (s + t)"
| "Number_add NaN _ = NaN"
| "Number_add _ NaN = NaN"
| "Number_add Infinity NegInfinity = NaN"
| "Number_add NegInfinity Infinity = NaN"
| "Number_add Infinity _ = Infinity"
| "Number_add _ Infinity = Infinity"
| "Number_add NegInfinity _ = NegInfinity"
| "Number_add _ NegInfinity = NegInfinity"

fun Number_unaryMinus :: "number \<Rightarrow> number" where
  "Number_unaryMinus (Finite t) = Finite (- t)"
| "Number_unaryMinus Infinity = NegInfinity"
| "Number_unaryMinus NegInfinity = Infinity"
| "Number_unaryMinus NaN = NaN"

definition Number_subtract :: "number \<Rightarrow> number \<Rightarrow> number" where
  "Number_subtract a b = Number_add a (Number_unaryMinus b)"

fun Number_multiply :: "number \<Rightarrow> number \<Rightarrow> number" where
  "Number_multiply (Finite s) (Finite t) = toDouble (s * t)"
| "Number_multiply NaN _ = NaN"
| "Number_multiply _ NaN = NaN"
| "Number_multiply (Finite s) Infinity =
     (if s = 0 then NaN else if 0 < s then Infinity else NegInfinity)"
| "Number_multiply (Finite s) NegInfinity =
     (if s = 0 then NaN else if 0 < s then NegInfinity else Infinity)"
| "Number_multiply Infinity (Finite t) =
     (if t = 0 then NaN else if 0 < t then Infinity else NegInfinity)"
| "Number_multiply NegInfinity (Finite t) =
     (if t = 0 then NaN else if 0 < t then NegInfinity else Infinity)"
| "Number_multiply Infinity Infinity = Infinity"
| "Number_multiply Infinity NegInfinity = NegInfinity"
| "Number_multiply NegInfinity Infinity = NegInfinity"
| "Number_multiply NegInfinity NegInfinity = Infinity"

fun Number_divide :: "number \<Rightarrow> number \<Rightarrow> number" where
  "Number_divide (Finite s) (Finite t) =
     (if t = 0 then (if s = 0 then NaN else if 0 < s then Infinity else NegInfinity)
      else toDouble (s / t))"
| "Number_divide NaN _ = NaN"
| "Number_divide _ NaN = NaN"
| "Number_divide (Finite s) _ = Finite 0"
| "Number_divide Infinity (Finite t) = (if 0 \<le> t then Infinity else NegInfinity)"
| "Number_divide NegInfinity (Finite t) = (if 0 \<le> t then NegInfinity else Infinity)"
| "Number_divide _ _ = NaN"

section \<open>Data model\<close>

text \<open>
  The values of the loaded points are finite numbers: reals here, and doubles
  (\<open>is_double\<close>) where a property depends on it. (A JSON number too large for a double,
  which \<^verbatim>\<open>JSON.parse\<close> reads as \<^verbatim>\<open>Infinity\<close>, is outside the model.) What the script
  computes from them is a \<open>number\<close>.

  Where the script can meet \<^verbatim>\<open>NaN\<close> or \<^verbatim>\<open>undefined\<close> in place of an integer (an
  unparsable date, \<^verbatim>\<open>Number\<close> of a non-numeric string, a missing property) the value is
  an \<open>option\<close>, with \<open>None\<close> for it.

  An object with optional properties is a record whose optional fields are options;
  \<open>None\<close> says that the property is absent.
\<close>

text \<open>A point of the loaded document: \<^verbatim>\<open>{ date, value }\<close>.\<close>

record DataPoint =
  date :: string
  val :: real

text \<open>
  A series: \<^verbatim>\<open>{ label, color, data }\<close>. The same shape, without \<^verbatim>\<open>color\<close>, is what
  the normalizer hands to the chart library, so the record is generic in its points.
\<close>

record 'p Dataset =
  label :: string
  color :: "string option"
  data :: "'p list"

text \<open>
  A point of the aggregate series, \<^verbatim>\<open>{ x, y }\<close>, and a normalized point, which has
  \<^verbatim>\<open>originalValue\<close> besides.
\<close>

record AggregatePoint =
  x :: string
  y :: number

record NormalizedPoint = AggregatePoint +
  originalValue :: real

section \<open>Normalizer\<close>

text \<open>
  \<^verbatim>\<open>Math.min(v, ...vs)\<close> and \<^verbatim>\<open>Math.max(v, ...vs)\<close> on a non-empty argument list: the
  running extremum, argument by argument. (Without arguments they are the infinities;
  the script calls them behind its guard for the empty series only.)
\<close>

definition Math_min :: "real \<Rightarrow> real list \<Rightarrow> real" where
  "Math_min v vs = fold min vs v"

definition Math_max :: "real \<Rightarrow> real list \<Rightarrow> real" where
  "Math_max v vs = fold max vs v"

text \<open>
  The callback of \<^verbatim>\<open>dataset.data.map\<close>: one point, given the minimum and the range.
  The range is a number: the difference of two finite values can overflow.
\<close>

definition normalizePoint :: "real \<Rightarrow> number \<Rightarrow> DataPoint \<Rightarrow> NormalizedPoint" where
  "normalizePoint mn range' point =
     (let normalizedValue =
            (if range' = Finite 0 then Finite 50
             else Number_multiply
                    (Number_divide (Number_subtract (Finite (val point)) (Finite mn)) range')
                    (Finite 100))
      in \<lparr>x = date point, y = normalizedValue, originalValue = val point\<rparr>)"

text \<open>
  The callback of \<^verbatim>\<open>datasets.map\<close>. The empty series leaves early with
  \<^verbatim>\<open>{ ...dataset, data: [] }\<close>, a copy of every property of the series with \<^verbatim>\<open>data\<close>
  replaced; every other series yields \<^verbatim>\<open>{ label, data }\<close>.
\<close>

definition normalizeDataset :: "DataPoint Dataset \<Rightarrow> NormalizedPoint Dataset" where
  "normalizeDataset dataset =
     (case data dataset of
        [] \<Rightarrow> \<lparr>label = label dataset, color = color dataset, data = []\<rparr>
      | p # ps \<Rightarrow>
          (let values = map val (p # ps);
               mn = Math_min (hd values) (tl values);
               mx = Math_max (hd values) (tl values);
               range' = Number_subtract (Finite mx) (Finite mn);
               normalizedData = map (normalizePoint mn range') (data dataset)
           in \<lparr>label = label dataset, color = None, data = normalizedData\<rparr>))"

definition normalizeAndFormatData :: "DataPoint Dataset list \<Rightarrow> NormalizedPoint Dataset list" where
  "normalizeAndFormatData datasets = map normalizeDataset datasets"

section \<open>Strings, numbers and dates of the platform\<close>

text \<open>
  The filter controls hold strings, and the script compares them with numbers it turns
  into strings (\<^verbatim>\<open>toString\<close>) or splits and reads them as numbers (\<^verbatim>\<open>split\<close>,
  \<^verbatim>\<open>Number\<close>). The numbers in question are integers or \<^verbatim>\<open>NaN\<close>: \<open>int option\<close>.
\<close>

definition digit_val :: "char \<Rightarrow> int option" where
  "digit_val c =
     map_of [(CHR ''0'', 0), (CHR ''1'', 1), (CHR ''2'', 2), (CHR ''3'', 3), (CHR ''4'', 4),
             (CHR ''5'', 5), (CHR ''6'', 6), (CHR ''7'', 7), (CHR ''8'', 8), (CHR ''9'', 9)] c"

fun digits_val :: "int \<Rightarrow> string \<Rightarrow> int option" where
  "digits_val acc [] = Some acc"
| "digits_val acc (c # cs) =
     (case digit_val c of None \<Rightarrow> None | Some d \<Rightarrow> digits_val (10 * acc + d) cs)"

text \<open>
  \<^verbatim>\<open>Number(s)\<close> on the strings a month-pair selection splits into: a run of decimal
  digits is its value, the empty string is 0, and any other string is \<^verbatim>\<open>NaN\<close>.
  (JavaScript reads more forms as numbers: surrounding blanks, a sign, a fraction, an
  exponent, a radix prefix. No option of the controls has them.)
\<close>

definition Number :: "string \<Rightarrow> int option" where
  "Number s = digits_val 0 s"

definition digit_char :: "nat \<Rightarrow> char" where
  "digit_char d = ''0123456789'' ! d"

fun digits_of :: "nat \<Rightarrow> string" where
  "digits_of n =
     (if n < 10 then [digit_char n] else digits_of (n div 10) @ [digit_char (n mod 10)])"

text \<open>\<^verbatim>\<open>n.toString()\<close> of an integer or \<^verbatim>\<open>NaN\<close>.\<close>

definition toString :: "int option \<Rightarrow> string" where
  "toString n =
     (case n of
        None \<Rightarrow> ''NaN''
      | Some i \<Rightarrow> (if i < 0 then CHR ''-'' # digits_of (nat (- i)) else digits_of (nat i)))"

text \<open>\<^verbatim>\<open>s.split(sep)\<close> for a separator of one character.\<close>

fun split :: "char \<Rightarrow> string \<Rightarrow> string list" where
  "split sep [] = [[]]"
| "split sep (c # cs) =
     (if c = sep then [] # split sep cs
      else (c # hd (split sep cs)) # tl (split sep cs))"

text \<open>
  Reading an array element that may be missing, as the destructuring
  \<^verbatim>\<open>[monthStart, monthEnd] = ...\<close> does: \<^verbatim>\<open>undefined\<close> past the end.
\<close>

definition element :: "int option list \<Rightarrow> nat \<Rightarrow> int option" where
  "element xs i = (if i < length xs then xs ! i else None)"

text \<open>\<^verbatim>\<open>a === b\<close> on numbers: \<^verbatim>\<open>NaN\<close> and \<^verbatim>\<open>undefined\<close> equal no number.\<close>

definition strict_equals :: "int option \<Rightarrow> int option \<Rightarrow> bool" where
  "strict_equals a b = (case (a, b) of (Some m, Some n) \<Rightarrow> m = n | _ \<Rightarrow> False)"

subsection \<open>Dates\<close>

text \<open>
  The calendar of ECMAScript (ECMA-262, Date objects): days are counted from 1 January
  1970 UTC, months are indexed from 0. \<open>DayWithinYear\<close> is read at month indices from 0
  to 11 only, which are the indices of its table.
\<close>

definition InLeapYear :: "int \<Rightarrow> bool" where
  "InLeapYear yr = (yr mod 4 = 0 \<and> (yr mod 100 \<noteq> 0 \<or> yr mod 400 = 0))"

definition DaysInMonth :: "int \<Rightarrow> int \<Rightarrow> int" where
  "DaysInMonth yr m =
     (if m = 1 then (if InLeapYear yr then 29 else 28)
      else if m = 3 \<or> m = 5 \<or> m = 8 \<or> m = 10 then 30 else 31)"

definition DayFromYear :: "int \<Rightarrow> int" where
  "DayFromYear yr =
     365 * (yr - 1970) + (yr - 1969) div 4 - (yr - 1901) div 100 + (yr - 1601) div 400"

definition DayWithinYear :: "int \<Rightarrow> int \<Rightarrow> int \<Rightarrow> int" where
  "DayWithinYear yr m d =
     [0, 31, 59, 90, 120, 151, 181, 212, 243, 273, 304, 334] ! nat m
       + (if 2 \<le> m \<and> InLeapYear yr then 1 else 0) + (d - 1)"

definition msPerDay :: int where
  "msPerDay = 86400000"

text \<open>
  A \<^verbatim>\<open>Date\<close> object holds a time value or \<^verbatim>\<open>NaN\<close> (\<^verbatim>\<open>Invalid Date\<close>). The dates of
  the document have day granularity and are written \<^verbatim>\<open>YYYY-MM-DD\<close>, which ECMAScript
  reads as midnight UTC of that day; the model keeps such a time value as its UTC
  calendar day: year, month index (0 to 11) and day of the month.
\<close>

datatype Date = Invalid_Date | Date_UTC int int int

text \<open>
  \<^verbatim>\<open>new Date(s)\<close> for a date-only string. A string that is not \<^verbatim>\<open>YYYY-MM-DD\<close> with a
  month from 01 to 12 and a day of that month is \<^verbatim>\<open>Invalid Date\<close> here. (ECMAScript
  knows further formats, and leaves a day such as 2023-02-30 to the implementation;
  the document of this application has neither.)
\<close>

definition new_Date :: "string \<Rightarrow> Date" where
  "new_Date s =
     (if length s = 10 \<and> s ! 4 = CHR ''-'' \<and> s ! 7 = CHR ''-'' then
        (case (digits_val 0 (take 4 s), digits_val 0 (take 2 (drop 5 s)),
               digits_val 0 (drop 8 s)) of
           (Some yr, Some mo, Some d) \<Rightarrow>
             (if 1 \<le> mo \<and> mo \<le> 12 \<and> 1 \<le> d \<and> d \<le> DaysInMonth yr (mo - 1)
              then Date_UTC yr (mo - 1) d else Invalid_Date)
         | _ \<Rightarrow> Invalid_Date)
      else Invalid_Date)"

text \<open>\<^verbatim>\<open>date.getTime()\<close>, also the number a \<^verbatim>\<open>Date\<close> is in a subtraction.\<close>

definition Date_getTime :: "Date \<Rightarrow> int option" where
  "Date_getTime dt =
     (case dt of
        Invalid_Date \<Rightarrow> None
      | Date_UTC yr m d \<Rightarrow> Some ((DayFromYear yr + DayWithinYear yr m d) * msPerDay))"

text \<open>
  \<^verbatim>\<open>getMonth\<close> and \<^verbatim>\<open>getFullYear\<close> read the date in local time, the time value plus
  the offset \<open>LocalTZA\<close> of the browser's time zone at that moment (in milliseconds,
  negative west of Greenwich). The offset is a parameter of the model. It is less than
  a day in size, so local time at midnight UTC of a day is on that day where the offset
  is not negative, and on the day before where it is.
\<close>

definition LocalTime :: "(int \<Rightarrow> int) \<Rightarrow> Date \<Rightarrow> Date" where
  "LocalTime LocalTZA dt =
     (case dt of
        Invalid_Date \<Rightarrow> Invalid_Date
      | Date_UTC yr m d \<Rightarrow>
          (if 0 \<le> LocalTZA ((DayFromYear yr + DayWithinYear yr m d) * msPerDay)
           then Date_UTC yr m d
           else if 1 < d then Date_UTC yr m (d - 1)
           else if 0 < m then Date_UTC yr (m - 1) (DaysInMonth yr (m - 1))
           else Date_UTC (yr - 1) 11 31))"

definition Date_getMonth :: "(int \<Rightarrow> int) \<Rightarrow> Date \<Rightarrow> int option" where
  "Date_getMonth LocalTZA dt =
     (case LocalTime LocalTZA dt of Invalid_Date \<Rightarrow> None | Date_UTC yr m d \<Rightarrow> Some m)"

definition Date_getFullYear :: "(int \<Rightarrow> int) \<Rightarrow> Date \<Rightarrow> int option" where
  "Date_getFullYear LocalTZA dt =
     (case LocalTime LocalTZA dt of Invalid_Date \<Rightarrow> None | Date_UTC yr m d \<Rightarrow> Some yr)"

text \<open>
  \<^verbatim>\<open>getUTCMonth\<close> reads the date in UTC: for a date-only string it is the month index
  of the day as written. The script does not call it; it is what the month of a date
  is compared with below.
\<close>

definition Date_getUTCMonth :: "Date \<Rightarrow> int option" where
  "Date_getUTCMonth dt = (case dt of Invalid_Date \<Rightarrow> None | Date_UTC yr m d \<Rightarrow> Some m)"

section \<open>Filter engine\<close>

text \<open>
  \<^verbatim>\<open>getQuarter(date)\<close>: \<^verbatim>\<open>Math.floor(month / 3) + 1\<close> of the month index, \<^verbatim>\<open>NaN\<close> for an
  invalid date.
\<close>

definition getQuarter :: "(int \<Rightarrow> int) \<Rightarrow> Date \<Rightarrow> int option" where
  "getQuarter LocalTZA dt =
     (case Date_getMonth LocalTZA dt of
        None \<Rightarrow> None
      | Some month \<Rightarrow> Some (\<lfloor>real_of_int month / 3\<rfloor> + 1))"

text \<open>
  The values of the three controls as \<^verbatim>\<open>handleFilterChange\<close> reads them: each is
  \<^verbatim>\<open>"all"\<close> or the value of an option.
\<close>

record FilterState =
  selectedYear :: string
  selectedQuarter :: string
  selectedMonth :: string

text \<open>
  The three callbacks that \<^verbatim>\<open>handleFilterChange\<close> passes to \<^verbatim>\<open>filter\<close>: each decides
  for one point whether it stays.
\<close>

definition yearCallback :: "(int \<Rightarrow> int) \<Rightarrow> string \<Rightarrow> DataPoint \<Rightarrow> bool" where
  "yearCallback LocalTZA year point =
     (toString (Date_getFullYear LocalTZA (new_Date (date point))) = year)"

definition quarterCallback :: "(int \<Rightarrow> int) \<Rightarrow> string \<Rightarrow> DataPoint \<Rightarrow> bool" where
  "quarterCallback LocalTZA quarter point =
     (let d = new_Date (date point);
          q = getQuarter LocalTZA d
      in toString q = quarter)"

definition monthCallback :: "(int \<Rightarrow> int) \<Rightarrow> int option \<Rightarrow> int option \<Rightarrow> DataPoint \<Rightarrow> bool" where
  "monthCallback LocalTZA monthStart monthEnd point =
     (let month = Date_getMonth LocalTZA (new_Date (date point))
      in strict_equals month monthStart \<or> strict_equals month monthEnd)"

text \<open>
  \<^verbatim>\<open>const [monthStart, monthEnd] = selectedMonth.split('-').map(Number)\<close>: the first two
  parts of the selection as numbers.
\<close>

definition monthPair :: "string \<Rightarrow> int option \<times> int option" where
  "monthPair selection =
     (let parts = map Number (split CHR ''-'' selection)
      in (element parts 0, element parts 1))"

text \<open>The three steps of \<^verbatim>\<open>handleFilterChange\<close> on the points of one series.\<close>

definition filterByYear :: "(int \<Rightarrow> int) \<Rightarrow> string \<Rightarrow> DataPoint list \<Rightarrow> DataPoint list" where
  "filterByYear LocalTZA year filteredData =
     (if year \<noteq> ''all'' then filter (yearCallback LocalTZA year) filteredData
      else filteredData)"

definition filterByQuarter :: "(int \<Rightarrow> int) \<Rightarrow> string \<Rightarrow> DataPoint list \<Rightarrow> DataPoint list" where
  "filterByQuarter LocalTZA quarter filteredData =
     (if quarter \<noteq> ''all'' then filter (quarterCallback LocalTZA quarter) filteredData
      else filteredData)"

definition filterByMonth :: "(int \<Rightarrow> int) \<Rightarrow> string \<Rightarrow> DataPoint list \<Rightarrow> DataPoint list" where
  "filterByMonth LocalTZA selection filteredData =
     (if selection \<noteq> ''all'' then
        (case monthPair selection of
           (monthStart, monthEnd) \<Rightarrow>
             filter (monthCallback LocalTZA monthStart monthEnd) filteredData)
      else filteredData)"

text \<open>
  The body of \<^verbatim>\<open>allData.datasets.forEach\<close> up to \<^verbatim>\<open>updatedDataset\<close>, on the series as a
  value: the series with its points filtered by year, then quarter, then month pair.
  (The loop itself, on the objects of the loaded document, follows in the section on
  handling a filter change; \<open>filterOne_returns\<close> shows that it builds this series.)
\<close>

definition filterDataset :: "(int \<Rightarrow> int) \<Rightarrow> FilterState \<Rightarrow> DataPoint Dataset \<Rightarrow> DataPoint Dataset" where
  "filterDataset LocalTZA sel originalDataset =
     (let filteredData = data originalDataset;
          filteredData = filterByYear LocalTZA (selectedYear sel) filteredData;
          filteredData = filterByQuarter LocalTZA (selectedQuarter sel) filteredData;
          filteredData = filterByMonth LocalTZA (selectedMonth sel) filteredData
      in originalDataset\<lparr>data := filteredData\<rparr>)"

definition filterDatasets :: "(int \<Rightarrow> int) \<Rightarrow> FilterState \<Rightarrow> DataPoint Dataset list \<Rightarrow> DataPoint Dataset list" where
  "filterDatasets LocalTZA sel datasets = map (filterDataset LocalTZA sel) datasets"

text \<open>What the three steps together ask of a point, for the proofs.\<close>

definition keeps :: "(int \<Rightarrow> int) \<Rightarrow> FilterState \<Rightarrow> DataPoint \<Rightarrow> bool" where
  "keeps tz sel p =
     ((selectedYear sel = ''all'' \<or> yearCallback tz (selectedYear sel) p) \<and>
      (selectedQuarter sel = ''all'' \<or> quarterCallback tz (selectedQuarter sel) p) \<and>
      (selectedMonth sel = ''all'' \<or>
         monthCallback tz (fst (monthPair (selectedMonth sel)))
           (snd (monthPair (selectedMonth sel))) p))"

section \<open>Aggregator\<close>

text \<open>
  \<^verbatim>\<open>dateMap\<close> is an object used as a dictionary from date keys to sums. Its keys are
  enumerated in the order of their creation, so it is an association list; assigning
  to a key keeps the key's place, assigning to a new key appends it. (The keys are
  dates: names that an object inherits, and keys that read as array indices, which
  JavaScript enumerates first, are no dates.)

  \<^verbatim>\<open>dateMap[k] || 0\<close> is 0 for a key that is missing and for a sum that is 0 or
  \<^verbatim>\<open>NaN\<close>, the two numbers that count as false.
\<close>

definition or_zero :: "number option \<Rightarrow> number" where
  "or_zero v =
     (case v of None \<Rightarrow> Finite 0 | Some r \<Rightarrow> (if r = Finite 0 \<or> r = NaN then Finite 0 else r))"

definition addPoint :: "NormalizedPoint \<Rightarrow> (string \<times> number) list \<Rightarrow> (string \<times> number) list" where
  "addPoint point dateMap =
     AList.update (x point) (Number_add (or_zero (map_of dateMap (x point))) (y point)) dateMap"

definition buildDateMap :: "NormalizedPoint Dataset list \<Rightarrow> (string \<times> number) list" where
  "buildDateMap normalizedDatasets =
     fold (\<lambda>dataset dateMap. fold addPoint (data dataset) dateMap) normalizedDatasets []"

text \<open>
  The comparison function of the sort, \<^verbatim>\<open>new Date(a.x) - new Date(b.x)\<close>. A result of
  \<^verbatim>\<open>NaN\<close> counts as 0 in \<^verbatim>\<open>Array.prototype.sort\<close>.
\<close>

definition compareDates :: "AggregatePoint \<Rightarrow> AggregatePoint \<Rightarrow> int" where
  "compareDates a b =
     (case (Date_getTime (new_Date (x a)), Date_getTime (new_Date (x b))) of
        (Some s, Some t) \<Rightarrow> s - t
      | _ \<Rightarrow> 0)"

text \<open>
  \<^verbatim>\<open>Array.prototype.sort\<close> with a comparison function is stable: an element moves
  behind another one only if the comparison says so. On a comparison function that
  orders the elements consistently, as \<open>compareDates\<close> does on valid dates, every
  stable sort returns the list below. (ECMAScript leaves the order open where the
  function is inconsistent, as it is with an invalid date among valid ones.)
\<close>

fun insert_sorted :: "('a \<Rightarrow> 'a \<Rightarrow> int) \<Rightarrow> 'a \<Rightarrow> 'a list \<Rightarrow> 'a list" where
  "insert_sorted cmp a [] = [a]"
| "insert_sorted cmp a (b # bs) =
     (if cmp a b \<le> 0 then a # b # bs else b # insert_sorted cmp a bs)"

definition sort_with :: "('a \<Rightarrow> 'a \<Rightarrow> int) \<Rightarrow> 'a list \<Rightarrow> 'a list" where
  "sort_with cmp xs = foldr (insert_sorted cmp) xs []"

text \<open>
  \<^verbatim>\<open>Object.keys(dateMap).map(date => ({ x: date, y: dateMap[date] }))\<close> pairs every key
  with the sum stored under it, in the order of the keys; the sort follows.
\<close>

definition createAggregateData :: "NormalizedPoint Dataset list \<Rightarrow> AggregatePoint list" where
  "createAggregateData normalizedDatasets =
     (let dateMap = buildDateMap normalizedDatasets;
          aggregateData = map (\<lambda>(k, v). \<lparr>x = k, y = v\<rparr>) dateMap
      in sort_with compareDates aggregateData)"

text \<open>
  For the statements about the aggregate series: \<open>chronological a b\<close> says that both
  dates are valid and that the time value of \<open>a\<close> is not after that of \<open>b\<close>;
  \<open>valueAt k\<close> reads the value an aggregate series has on the date key \<open>k\<close>, if it
  has a point there.
\<close>

definition chronological :: "AggregatePoint \<Rightarrow> AggregatePoint \<Rightarrow> bool" where
  "chronological a b =
     (case (Date_getTime (new_Date (x a)), Date_getTime (new_Date (x b))) of
        (Some s, Some t) \<Rightarrow> s \<le> t
      | _ \<Rightarrow> False)"

definition valueAt :: "string \<Rightarrow> AggregatePoint list \<Rightarrow> number option" where
  "valueAt k aggregateData = map_of (map (\<lambda>p. (x p, y p)) aggregateData) k"

section \<open>Handling a filter change\<close>

subsection \<open>Formatting for the individual charts\<close>

text \<open>
  A read of a property of \<^verbatim>\<open>undefined\<close> throws a \<^verbatim>\<open>TypeError\<close>; no other exception
  can arise in \<^verbatim>\<open>handleFilterChange\<close>.
\<close>

datatype error = TypeError

text \<open>The line dataset that \<^verbatim>\<open>formatDatasetsForChart\<close> builds for the chart library.\<close>

record 'p LineDataset = "'p Dataset" +
  borderColor :: string
  backgroundColor :: string
  borderWidth :: real
  tension :: real
  fill :: bool
  spanGaps :: bool

text \<open>
  \<^verbatim>\<open>s.replace(pat, rep)\<close> with a string pattern: the first occurrence of \<open>pat\<close> is
  replaced. (The replacement of the script has no \<^verbatim>\<open>$\<close> pattern.)
\<close>

fun replace :: "string \<Rightarrow> string \<Rightarrow> string \<Rightarrow> string" where
  "replace pat rep [] = (if pat = [] then rep else [])"
| "replace pat rep (c # cs) =
     (if take (length pat) (c # cs) = pat then rep @ drop (length pat) (c # cs)
      else c # replace pat rep cs)"

text \<open>
  The callback of \<^verbatim>\<open>datasets.map\<close> in \<^verbatim>\<open>formatDatasetsForChart\<close>. The call
  \<^verbatim>\<open>dataset.color.replace('1)', '0.2')\<close> throws for a series without \<^verbatim>\<open>color\<close>.
\<close>

definition formatDataset :: "DataPoint Dataset \<Rightarrow> error + AggregatePoint LineDataset" where
  "formatDataset dataset =
     (case color dataset of
        None \<Rightarrow> Inl TypeError
      | Some c \<Rightarrow>
          Inr \<lparr>label = label dataset, color = None,
               data = map (\<lambda>point. \<lparr>x = date point, y = Finite (val point)\<rparr>) (data dataset),
               borderColor = c,
               backgroundColor = replace ''1)'' ''0.2'' c,
               borderWidth = 2, tension = 0.1, fill = False, spanGaps = True\<rparr>)"

fun formatDatasetsForChart :: "DataPoint Dataset list \<Rightarrow> error + AggregatePoint LineDataset list" where
  "formatDatasetsForChart [] = Inr []"
| "formatDatasetsForChart (dataset # datasets) =
     (case formatDataset dataset of
        Inl e \<Rightarrow> Inl e
      | Inr f \<Rightarrow>
          (case formatDatasetsForChart datasets of
             Inl e \<Rightarrow> Inl e
           | Inr fs \<Rightarrow> Inr (f # fs)))"

subsection \<open>The state of the script\<close>

text \<open>
  The loaded document is shared, mutable data: \<^verbatim>\<open>allData.datasets\<close> holds references
  to series objects, a series holds a reference to its array, an array holds references
  to point objects, and \<^verbatim>\<open>handleFilterChange\<close> passes these references on
  (\<^verbatim>\<open>let filteredData = originalDataset.data\<close> is the array of the document itself, and
  \<^verbatim>\<open>filter\<close> puts the point objects of the document into its result). So the objects
  live in a store, a map from addresses to objects, and \<open>fresh\<close> is the next address
  that an allocation takes. What the chart library is handed (line datasets, normalized
  series, aggregate points) is built afresh from strings and numbers on every call and
  holds no reference into the document; it is kept by value.
\<close>

type_synonym ref = nat

datatype obj =
  PointObj DataPoint
| ArrayObj "ref list"
| SeriesObj string "string option" ref

record AppState =
  heap :: "ref \<Rightarrow> obj option"
  fresh :: ref
  allData :: "ref list"
  chartInstances :: "AggregatePoint LineDataset list list"
  summaryChart :: "NormalizedPoint Dataset list"
  aggregateChart :: "AggregatePoint list"

text \<open>
  A step of the script takes the state and returns the new state with its result or the
  exception it threw.
\<close>

type_synonym 'a action = "AppState \<Rightarrow> (error + 'a) \<times> AppState"

definition succeed :: "'a \<Rightarrow> 'a action" where
  "succeed a st = (Inr a, st)"

definition throw :: "error \<Rightarrow> 'a action" where
  "throw e st = (Inl e, st)"

definition andThen :: "'a action \<Rightarrow> ('a \<Rightarrow> 'b action) \<Rightarrow> 'b action" where
  "andThen m f st = (case m st of (Inl e, st') \<Rightarrow> (Inl e, st') | (Inr a, st') \<Rightarrow> f a st')"

text \<open>A new array or object: the store gets a cell at the next address.\<close>

definition alloc :: "obj \<Rightarrow> ref action" where
  "alloc ob st = (Inr (fresh st), st\<lparr>heap := (heap st)(fresh st \<mapsto> ob), fresh := Suc (fresh st)\<rparr>)"

text \<open>
  Reading through references. A reference that does not lead to an object of the
  expected kind reads as \<open>None\<close>; the script throws a \<^verbatim>\<open>TypeError\<close> where it uses such
  a value.
\<close>

definition readPoint :: "(ref \<Rightarrow> obj option) \<Rightarrow> ref \<Rightarrow> DataPoint option" where
  "readPoint h r = (case h r of Some (PointObj p) \<Rightarrow> Some p | _ \<Rightarrow> None)"

definition arrayRefs :: "(ref \<Rightarrow> obj option) \<Rightarrow> ref \<Rightarrow> ref list option" where
  "arrayRefs h r = (case h r of Some (ArrayObj rs) \<Rightarrow> Some rs | _ \<Rightarrow> None)"

definition readArray :: "(ref \<Rightarrow> obj option) \<Rightarrow> ref \<Rightarrow> DataPoint list option" where
  "readArray h r =
     (case arrayRefs h r of None \<Rightarrow> None | Some rs \<Rightarrow> those (map (readPoint h) rs))"

definition readSeries :: "(ref \<Rightarrow> obj option) \<Rightarrow> ref \<Rightarrow> DataPoint Dataset option" where
  "readSeries h r =
     (case h r of
        Some (SeriesObj lbl col d) \<Rightarrow>
          (case readArray h d of
             None \<Rightarrow> None
           | Some ps \<Rightarrow> Some \<lparr>label = lbl, color = col, data = ps\<rparr>)
      | _ \<Rightarrow> None)"

text \<open>
  \<^verbatim>\<open>filteredData.filter(callback)\<close> allocates a new array that holds the references of
  the points for which the callback holds; the array it reads is left as it is.
\<close>

definition filterArray :: "(DataPoint \<Rightarrow> bool) \<Rightarrow> ref \<Rightarrow> ref action" where
  "filterArray callback arr st =
     (case arrayRefs (heap st) arr of
        None \<Rightarrow> throw TypeError st
      | Some rs \<Rightarrow>
          (case those (map (readPoint (heap st)) rs) of
             None \<Rightarrow> throw TypeError st
           | Some ps \<Rightarrow>
               alloc (ArrayObj (map fst (filter (\<lambda>(r, p). callback p) (zip rs ps)))) st))"

text \<open>One of the three guarded steps: \<^verbatim>\<open>if (selected !== 'all') { filteredData = ... }\<close>.\<close>

definition filterStep :: "bool \<Rightarrow> (DataPoint \<Rightarrow> bool) \<Rightarrow> ref \<Rightarrow> ref action" where
  "filterStep selected callback filteredData =
     (if selected then filterArray callback filteredData else succeed filteredData)"

text \<open>
  The body of \<^verbatim>\<open>allData.datasets.forEach\<close> up to
  \<^verbatim>\<open>updatedDataset = { ...originalDataset, data: filteredData }\<close>, a new object with the
  label and colour of the series and the reference \<open>filteredData\<close>.
\<close>

definition filterOne :: "(int \<Rightarrow> int) \<Rightarrow> FilterState \<Rightarrow> ref \<Rightarrow> ref action" where
  "filterOne LocalTZA sel originalDataset st =
     (case heap st originalDataset of
        Some (SeriesObj lbl col d) \<Rightarrow>
          andThen (filterStep (selectedYear sel \<noteq> ''all'')
                     (yearCallback LocalTZA (selectedYear sel)) d) (\<lambda>filteredData.
          andThen (filterStep (selectedQuarter sel \<noteq> ''all'')
                     (quarterCallback LocalTZA (selectedQuarter sel)) filteredData) (\<lambda>filteredData.
          andThen (filterStep (selectedMonth sel \<noteq> ''all'')
                     (monthCallback LocalTZA (fst (monthPair (selectedMonth sel)))
                        (snd (monthPair (selectedMonth sel)))) filteredData) (\<lambda>filteredData.
          alloc (SeriesObj lbl col filteredData)))) st
      | _ \<Rightarrow> throw TypeError st)"

text \<open>
  Step 4 of the body: \<^verbatim>\<open>if (chart) { chart.data.datasets =
  formatDatasetsForChart([updatedDataset]); chart.update() }\<close>, for the chart at \<open>index\<close>
  if there is one.
\<close>

definition updateChart :: "nat \<Rightarrow> ref \<Rightarrow> unit action" where
  "updateChart index updatedDataset st =
     (if index < length (chartInstances st) then
        (case readSeries (heap st) updatedDataset of
           None \<Rightarrow> throw TypeError st
         | Some v \<Rightarrow>
             (case formatDatasetsForChart [v] of
                Inl e \<Rightarrow> throw e st
              | Inr fs \<Rightarrow>
                  succeed () (st\<lparr>chartInstances := (chartInstances st)[index := fs]\<rparr>)))
      else succeed () st)"

text \<open>The loop, with \<^verbatim>\<open>filteredDatasets.push(updatedDataset)\<close> as its last step.\<close>

fun forEachDataset :: "(int \<Rightarrow> int) \<Rightarrow> FilterState \<Rightarrow> ref list \<Rightarrow> nat \<Rightarrow> ref list \<Rightarrow> ref list action" where
  "forEachDataset LocalTZA sel [] index filteredDatasets = succeed filteredDatasets"
| "forEachDataset LocalTZA sel (originalDataset # rest) index filteredDatasets =
     andThen (filterOne LocalTZA sel originalDataset) (\<lambda>updatedDataset.
     andThen (updateChart index updatedDataset) (\<lambda>_.
     forEachDataset LocalTZA sel rest (Suc index) (filteredDatasets @ [updatedDataset])))"

text \<open>
  Steps 6 and 7: the summary chart gets the normalized series and the aggregate chart
  the aggregate of them.
\<close>

definition updateSummaryAndAggregate :: "ref list \<Rightarrow> unit action" where
  "updateSummaryAndAggregate filteredDatasets st =
     (case those (map (readSeries (heap st)) filteredDatasets) of
        None \<Rightarrow> throw TypeError st
      | Some vs \<Rightarrow>
          (let normalizedDatasets = normalizeAndFormatData vs;
               st1 = st\<lparr>summaryChart := normalizedDatasets\<rparr>;
               aggregateData = createAggregateData normalizedDatasets
           in succeed () (st1\<lparr>aggregateChart := aggregateData\<rparr>)))"

definition handleFilterChange :: "(int \<Rightarrow> int) \<Rightarrow> FilterState \<Rightarrow> unit action" where
  "handleFilterChange LocalTZA sel st =
     andThen (forEachDataset LocalTZA sel (allData st) 0 []) updateSummaryAndAggregate st"

text \<open>
  The loaded series as values: what the references of \<^verbatim>\<open>allData.datasets\<close> lead to.
\<close>

definition loaded :: "AppState \<Rightarrow> DataPoint Dataset list option" where
  "loaded st = those (map (readSeries (heap st)) (allData st))"

text \<open>
  For the statements and proofs about the store: in a \<open>bounded\<close> state no object lies at
  or beyond the next free address; \<open>framed st st'\<close> says that \<open>st'\<close> has the document
  and every cell below the free address of \<open>st\<close> as \<open>st\<close> has them; a store \<open>extends\<close>
  another one if it has all its objects; a \<open>safe\<close> step frames every state and keeps it
  bounded; \<open>returns m st Q\<close> says that the step \<open>m\<close> does not throw in \<open>st\<close> and that
  its result and final state satisfy \<open>Q\<close>; \<open>chartsUpdated\<close> says which individual
  charts have new datasets, and which.
\<close>

definition bounded :: "AppState \<Rightarrow> bool" where
  "bounded st = (\<forall>a \<ge> fresh st. heap st a = None)"

definition framed :: "AppState \<Rightarrow> AppState \<Rightarrow> bool" where
  "framed st st' =
     (fresh st \<le> fresh st' \<and> allData st' = allData st \<and> (\<forall>a < fresh st. heap st' a = heap st a))"

definition extends :: "(ref \<Rightarrow> obj option) \<Rightarrow> (ref \<Rightarrow> obj option) \<Rightarrow> bool" where
  "extends h h' = (\<forall>a. h a \<noteq> None \<longrightarrow> h' a = h a)"

definition safe :: "'a action \<Rightarrow> bool" where
  "safe m = (\<forall>st. framed st (snd (m st)) \<and> (bounded st \<longrightarrow> bounded (snd (m st))))"

definition returns :: "'a action \<Rightarrow> AppState \<Rightarrow> ('a \<Rightarrow> AppState \<Rightarrow> bool) \<Rightarrow> bool" where
  "returns m st Q = (\<exists>a st'. m st = (Inr a, st') \<and> framed st st' \<and> bounded st' \<and> Q a st')"

definition chartsUpdated ::
  "(int \<Rightarrow> int) \<Rightarrow> FilterState \<Rightarrow> nat \<Rightarrow> DataPoint Dataset list \<Rightarrow>
   AggregatePoint LineDataset list list \<Rightarrow> AggregatePoint LineDataset list list \<Rightarrow> bool" where
  "chartsUpdated tz sel i vs old new =
     (length new = length old \<and>
      (\<forall>j < length old.
         if i \<le> j \<and> j < i + length vs
         then formatDatasetsForChart [filterDataset tz sel (vs ! (j - i))] = Inr (new ! j)
         else new ! j = old ! j))"

section \<open>Sample data\<close>

text \<open>
  Concrete series on which the theorems below are instantiated: the series of the
  scenario in the specification, a second series that shares two of its dates, a series
  of one repeated value, a series with a point on the first day of three months in a
  row, a series whose range is beyond the largest double, two series with one value
  far above the others, and a series without points.
\<close>

definition seriesA :: "DataPoint Dataset" where
  "seriesA =
     \<lparr>label = ''Commits'', color = Some ''rgba(0, 123, 255, 1)'',
      data = [\<lparr>date = ''2023-01-01'', val = 10\<rparr>,
              \<lparr>date = ''2023-06-01'', val = 30\<rparr>,
              \<lparr>date = ''2023-12-01'', val = 20\<rparr>]\<rparr>"

definition seriesB :: "DataPoint Dataset" where
  "seriesB =
     \<lparr>label = ''Issues'', color = Some ''rgba(40, 167, 69, 1)'',
      data = [\<lparr>date = ''2024-02-29'', val = 4\<rparr>,
              \<lparr>date = ''2023-01-01'', val = 8\<rparr>,
              \<lparr>date = ''2023-06-01'', val = 5\<rparr>]\<rparr>"

definition seriesFlat :: "DataPoint Dataset" where
  "seriesFlat =
     \<lparr>label = ''Releases'', color = Some ''rgba(220, 53, 69, 1)'',
      data = [\<lparr>date = ''2023-01-01'', val = 7\<rparr>,
              \<lparr>date = ''2023-06-01'', val = 7\<rparr>]\<rparr>"

definition seriesMonthly :: "DataPoint Dataset" where
  "seriesMonthly =
     \<lparr>label = ''Pull requests'', color = Some ''rgba(108, 117, 125, 1)'',
      data = [\<lparr>date = ''2023-01-01'', val = 3\<rparr>,
              \<lparr>date = ''2023-02-01'', val = 6\<rparr>,
              \<lparr>date = ''2023-03-01'', val = 9\<rparr>]\<rparr>"

definition seriesWide :: "DataPoint Dataset" where
  "seriesWide =
     \<lparr>label = ''Balance'', color = Some ''rgba(23, 162, 184, 1)'',
      data = [\<lparr>date = ''2023-01-01'', val = - (2 ^ 1023)\<rparr>,
              \<lparr>date = ''2023-06-01'', val = 0\<rparr>,
              \<lparr>date = ''2023-12-01'', val = 2 ^ 1023\<rparr>]\<rparr>"

definition seriesStars :: "DataPoint Dataset" where
  "seriesStars =
     \<lparr>label = ''Stars'', color = Some ''rgba(111, 66, 193, 1)'',
      data = [\<lparr>date = ''2023-01-01'', val = 0\<rparr>,
              \<lparr>date = ''2023-06-01'', val = 100\<rparr>,
              \<lparr>date = ''2023-12-01'', val = 100 * 2 ^ 54\<rparr>]\<rparr>"

definition seriesViews :: "DataPoint Dataset" where
  "seriesViews =
     \<lparr>label = ''Views'', color = Some ''rgba(253, 126, 20, 1)'',
      data = [\<lparr>date = ''2023-01-01'', val = 0\<rparr>,
              \<lparr>date = ''2023-06-01'', val = 100\<rparr>,
              \<lparr>date = ''2023-12-01'', val = 100 * 2 ^ 54\<rparr>]\<rparr>"

definition seriesEmpty :: "DataPoint Dataset" where
  "seriesEmpty = \<lparr>label = ''Forks'', color = Some ''rgba(255, 193, 7, 1)'', data = []\<rparr>"

text \<open>
  A state of the script with the series \<open>seriesA\<close> loaded and one individual chart, and
  two selections of the controls.
\<close>

definition sampleState :: AppState where
  "sampleState =
     \<lparr>heap = [0 \<mapsto> PointObj \<lparr>date = ''2023-01-01'', val = 10\<rparr>,
              1 \<mapsto> PointObj \<lparr>date = ''2023-06-01'', val = 30\<rparr>,
              2 \<mapsto> PointObj \<lparr>date = ''2023-12-01'', val = 20\<rparr>,
              3 \<mapsto> ArrayObj [0, 1, 2],
              4 \<mapsto> SeriesObj ''Commits'' (Some ''rgba(0, 123, 255, 1)'') 3],
      fresh = 5, allData = [4], chartInstances = [[]], summaryChart = [],
      aggregateChart = []\<rparr>"

text \<open>
  The offset of local time in a browser five hours behind UTC, in milliseconds (New
  York in winter).
\<close>

definition utcMinus5 :: "int \<Rightarrow> int" where
  "utcMinus5 t = - 18000000"

definition firstQuarter :: FilterState where
  "firstQuarter = \<lparr>selectedYear = ''all'', selectedQuarter = ''1'', selectedMonth = ''all''\<rparr>"

definition noFilter :: FilterState where
  "noFilter = \<lparr>selectedYear = ''all'', selectedQuarter = ''all'', selectedMonth = ''all''\<rparr>"

section \<open>Properties of the numbers\<close>

text \<open>
  Rounding to the nearest double is monotone on the reals that are not negative, it
  leaves a double as it is, and the difference of two different doubles never rounds
  to zero.
\<close>

declare exponent.simps [simp del]

lemma round_even_of_int [simp]: "round_even (of_int n) = n"
  by (simp add: round_even_def)

lemma round_even_0 [simp]: "round_even 0 = 0"
  by (simp add: round_even_def)

lemma round_even_ge_floor: "\<lfloor>t\<rfloor> \<le> round_even t"
  by (simp add: round_even_def Let_def)

lemma round_even_le_floor1: "round_even t \<le> \<lfloor>t\<rfloor> + 1"
  by (simp add: round_even_def Let_def)

lemma round_even_mono:
  assumes "s \<le> t"
  shows "round_even s \<le> round_even t"
proof (cases "\<lfloor>s\<rfloor> < \<lfloor>t\<rfloor>")
  case True
  have "round_even s \<le> \<lfloor>s\<rfloor> + 1" by (rule round_even_le_floor1)
  also have "\<dots> \<le> \<lfloor>t\<rfloor>" using True by simp
  also have "\<dots> \<le> round_even t" by (rule round_even_ge_floor)
  finally show ?thesis .
next
  case False
  moreover have "\<lfloor>s\<rfloor> \<le> \<lfloor>t\<rfloor>" using assms by (rule floor_mono)
  ultimately have e: "\<lfloor>s\<rfloor> = \<lfloor>t\<rfloor>" by simp
  show ?thesis
    using assms unfolding round_even_def Let_def e by auto
qed

lemma round_even_ge: "of_int n \<le> t \<Longrightarrow> n \<le> round_even t"
  using round_even_mono[of "of_int n" t] by simp

lemma round_even_le: "t \<le> of_int n \<Longrightarrow> round_even t \<le> n"
  using round_even_mono[of t "of_int n"] by simp

lemma exponent_bounds:
  "0 < t \<Longrightarrow> 2 powi exponent t \<le> t \<and> t < 2 powi (exponent t + 1)"
proof (induction t rule: exponent.induct)
  case (1 t)
  consider "t < 1" | "2 \<le> t" | "1 \<le> t" "t < 2"
    by linarith
  then show ?case
  proof cases
    case 1
    have e: "exponent t = exponent (2 * t) - 1"
      using 1 \<open>0 < t\<close> by (subst exponent.simps) simp
    have ih: "2 powi exponent (2 * t) \<le> 2 * t \<and> 2 * t < 2 powi (exponent (2 * t) + 1)"
      using "1.IH"(1) 1 \<open>0 < t\<close> by simp
    have a: "(2::real) powi (exponent (2 * t) - 1) = 2 powi exponent (2 * t) / 2"
      by (simp add: power_int_diff)
    have b: "(2::real) powi (exponent (2 * t) + 1) = 2 powi exponent (2 * t) * 2"
      by (simp add: power_int_add)
    show ?thesis
      unfolding e using ih a b by simp
  next
    case 2
    have e: "exponent t = exponent (t / 2) + 1"
      using 2 by (subst exponent.simps) simp
    have ih: "2 powi exponent (t / 2) \<le> t / 2 \<and> t / 2 < 2 powi (exponent (t / 2) + 1)"
      using "1.IH"(2) 2 by simp
    have b: "(2::real) powi (exponent (t / 2) + 1) = 2 powi exponent (t / 2) * 2"
      by (simp add: power_int_add)
    have c: "(2::real) powi (exponent (t / 2) + 1 + 1) = 2 powi (exponent (t / 2) + 1) * 2"
      by (simp add: power_int_add)
    show ?thesis
      unfolding e using ih b c by simp
  next
    case 3
    have e: "exponent t = 0"
      using 3 by (subst exponent.simps) simp
    show ?thesis unfolding e using 3 by simp
  qed
qed

lemma powi2_less_imp: "(2::real) powi m < 2 powi n \<Longrightarrow> m < n"
  using power_int_increasing[of n m "2::real"] by (cases "m < n") auto

lemma exponent_unique:
  assumes "2 powi k \<le> t" "t < 2 powi (k + 1)"
  shows "exponent t = k"
proof -
  have pos: "0 < t"
    using assms(1) zero_less_power_int[of "2::real" k] by linarith
  note b = exponent_bounds[OF pos]
  have "(2::real) powi exponent t < 2 powi (k + 1)"
    using b assms by linarith
  then have "exponent t < k + 1" by (rule powi2_less_imp)
  moreover have "(2::real) powi k < 2 powi (exponent t + 1)"
    using b assms by linarith
  then have "k < exponent t + 1" by (rule powi2_less_imp)
  ultimately show ?thesis by simp
qed

lemma exponent_mono:
  assumes "0 < s" "s \<le> t"
  shows "exponent s \<le> exponent t"
proof -
  have "(2::real) powi exponent s < 2 powi (exponent t + 1)"
    using exponent_bounds[OF assms(1)] exponent_bounds[of t] assms by linarith
  then have "exponent s < exponent t + 1" by (rule powi2_less_imp)
  then show ?thesis by simp
qed

lemma exponent_less:
  assumes "0 < t" "t < 2 powi k"
  shows "exponent t < k"
proof -
  have "(2::real) powi exponent t < 2 powi k"
    using exponent_bounds[OF assms(1)] assms(2) by linarith
  then show ?thesis by (rule powi2_less_imp)
qed


lemma ulp_pos: "0 < ulp t"
  by (simp add: ulp_def)

lemma nearest_0 [simp]: "nearest 0 = 0"
  by (simp add: nearest_def)

lemma nearest_nonneg:
  assumes "0 \<le> t"
  shows "0 \<le> nearest t"
proof -
  have "0 \<le> t / ulp t" using assms ulp_pos[of t] by simp
  then have "0 \<le> round_even (t / ulp t)" using round_even_ge[of 0 "t / ulp t"] by simp
  then show ?thesis unfolding nearest_def using ulp_pos[of t] by simp
qed

lemma powi2_add: "(2::real) powi (a + b) = 2 powi a * 2 powi b"
  by (simp add: power_int_add)

lemma powi2_split:
  assumes "m \<le> e"
  shows "(2::real) powi e = 2 powi m * 2 ^ nat (e - m)"
proof -
  have "e = m + int (nat (e - m))" using assms by simp
  then have "(2::real) powi e = 2 powi (m + int (nat (e - m)))" by simp
  also have "\<dots> = 2 powi m * 2 powi int (nat (e - m))" by (rule powi2_add)
  finally show ?thesis by (simp only: power_int_of_nat)
qed

lemma nearest_upper:
  assumes "0 < t"
  shows "nearest t \<le> 2 powi (max (exponent t) min_exponent + 1)"
proof -
  define e where "e = max (exponent t) min_exponent"
  have u: "ulp t = 2 powi (e - 52)"
    using assms by (simp add: ulp_def e_def)
  have "t < 2 powi (exponent t + 1)"
    using exponent_bounds[OF assms] by simp
  also have "\<dots> \<le> 2 powi (e + 1)"
    by (rule power_int_increasing) (simp_all add: e_def)
  finally have lt: "t < 2 powi (e + 1)" .
  have "(2::real) powi (e + 1) = 2 powi (e - 52) * 2 ^ nat (e + 1 - (e - 52))"
    by (rule powi2_split) simp
  then have s: "(2::real) powi (e + 1) = of_int (2 ^ 53) * ulp t"
    unfolding u by simp
  have "t / ulp t \<le> of_int (2 ^ 53)"
    using lt ulp_pos[of t] unfolding s by (simp add: pos_divide_le_eq)
  then have "round_even (t / ulp t) \<le> 2 ^ 53" by (rule round_even_le)
  then have "real_of_int (round_even (t / ulp t)) \<le> of_int (2 ^ 53)"
    by (simp only: of_int_le_iff)
  then have "nearest t \<le> of_int (2 ^ 53) * ulp t"
    unfolding nearest_def using ulp_pos[of t] by (simp only: mult_le_cancel_right_pos)
  then show ?thesis unfolding s[symmetric] e_def .
qed

lemma nearest_lower:
  assumes "0 < t" "min_exponent \<le> exponent t"
  shows "2 powi exponent t \<le> nearest t"
proof -
  define e where "e = exponent t"
  have u: "ulp t = 2 powi (e - 52)"
    using assms by (simp add: ulp_def e_def max_def)
  have le: "2 powi e \<le> t"
    using exponent_bounds[OF assms(1)] by (simp add: e_def)
  have "(2::real) powi e = 2 powi (e - 52) * 2 ^ nat (e - (e - 52))"
    by (rule powi2_split) simp
  then have s: "(2::real) powi e = of_int (2 ^ 52) * ulp t"
    unfolding u by simp
  have "of_int (2 ^ 52) \<le> t / ulp t"
    using le ulp_pos[of t] unfolding s by (simp add: pos_le_divide_eq)
  then have "2 ^ 52 \<le> round_even (t / ulp t)" by (rule round_even_ge)
  then have "real_of_int (2 ^ 52) \<le> of_int (round_even (t / ulp t))"
    by (simp only: of_int_le_iff)
  then have "of_int (2 ^ 52) * ulp t \<le> nearest t"
    unfolding nearest_def using ulp_pos[of t] by (simp only: mult_le_cancel_right_pos)
  then show ?thesis unfolding s[symmetric] e_def .
qed

lemma nearest_mono_pos:
  assumes "0 < s" "s \<le> t"
  shows "nearest s \<le> nearest t"
proof -
  define es where "es = max (exponent s) min_exponent"
  define et where "et = max (exponent t) min_exponent"
  have t: "0 < t" using assms by simp
  have "exponent s \<le> exponent t" using assms by (rule exponent_mono)
  then have le: "es \<le> et" by (simp add: es_def et_def)
  show ?thesis
  proof (cases "es = et")
    case True
    have u: "ulp s = ulp t"
      using assms t True by (simp add: ulp_def es_def et_def)
    have "s / ulp t \<le> t / ulp t"
      using assms(2) ulp_pos[of t] by (simp add: divide_right_mono)
    then have "round_even (s / ulp t) \<le> round_even (t / ulp t)" by (rule round_even_mono)
    then have "real_of_int (round_even (s / ulp t)) \<le> of_int (round_even (t / ulp t))"
      by (simp only: of_int_le_iff)
    then show ?thesis
      unfolding nearest_def u using ulp_pos[of t] by (simp only: mult_le_cancel_right_pos)
  next
    case False
    then have lt: "es < et" using le by simp
    then have ex: "et = exponent t" "min_exponent \<le> exponent t"
      by (simp_all add: es_def et_def max_def split: if_splits)
    have "nearest s \<le> 2 powi (es + 1)"
      unfolding es_def using assms(1) by (rule nearest_upper)
    also have "\<dots> \<le> 2 powi et"
      by (rule power_int_increasing) (use lt in simp_all)
    also have "\<dots> \<le> nearest t"
      unfolding ex(1) using t ex(2) by (rule nearest_lower)
    finally show ?thesis .
  qed
qed

lemma nearest_mono:
  assumes "0 \<le> s" "s \<le> t"
  shows "nearest s \<le> nearest t"
proof (cases "s = 0")
  case True
  then show ?thesis using assms nearest_nonneg[of t] by simp
next
  case False
  then have "0 < s" using assms by simp
  then show ?thesis using assms(2) by (rule nearest_mono_pos)
qed

lemma significand_bound:
  assumes "\<bar>n\<bar> < 2 ^ 53"
  shows "\<bar>real_of_int n * 2 powi k\<bar> < 2 powi (53 + k)"
proof -
  have "real_of_int \<bar>n\<bar> < of_int (2 ^ 53)"
    using assms by (simp only: of_int_less_iff)
  then have lt: "real_of_int \<bar>n\<bar> * 2 powi k < of_int (2 ^ 53) * 2 powi k"
    by (simp only: mult_less_cancel_right_pos zero_less_power_int zero_less_numeral)
  have "\<bar>real_of_int n * 2 powi k\<bar> = real_of_int \<bar>n\<bar> * 2 powi k"
    by (simp add: abs_mult)
  also note lt
  also have "real_of_int (2 ^ 53) * 2 powi k = 2 powi (53 + k)"
    unfolding powi2_add by simp
  finally show ?thesis .
qed

lemma nearest_exact:
  assumes n: "\<bar>n\<bar> < 2 ^ 53" and k: "min_exponent - 52 \<le> k"
  shows "nearest (of_int n * 2 powi k) = of_int n * 2 powi k"
proof (cases "n = 0")
  case True
  then show ?thesis by simp
next
  case False
  define t :: real where "t = of_int n * 2 powi k"
  define u where "u = ulp t"
  have pos: "0 < \<bar>t\<bar>"
    using False by (simp add: t_def)
  have "\<bar>t\<bar> < 2 powi (53 + k)"
    unfolding t_def using n by (rule significand_bound)
  then have "exponent \<bar>t\<bar> < 53 + k"
    using pos by (intro exponent_less)
  define e where "e = max (exponent \<bar>t\<bar>) min_exponent"
  have ek: "e - 52 \<le> k"
    using \<open>exponent \<bar>t\<bar> < 53 + k\<close> k by (simp add: e_def)
  define j where "j = nat (k - (e - 52))"
  have u: "u = 2 powi (e - 52)"
    by (simp add: u_def ulp_def e_def)
  have u0: "0 < u" by (simp add: u)
  have pk: "(2::real) powi k = u * 2 ^ j"
    unfolding u j_def using ek by (rule powi2_split)
  have tu: "t = of_int (n * 2 ^ j) * u"
    unfolding t_def pk by simp
  have q: "t / u = of_int (n * 2 ^ j)"
    unfolding tu using u0 by simp
  have "nearest t = of_int (n * 2 ^ j) * u"
    unfolding nearest_def u_def[symmetric] q by (simp only: round_even_of_int)
  then have "nearest t = t"
    using tu by simp
  then show ?thesis unfolding t_def .
qed

lemma toDouble_power:
  assumes n: "\<bar>n\<bar> < 2 ^ 53" and k: "min_exponent - 52 \<le> k"
    and fin: "\<bar>real_of_int n * 2 powi k\<bar> < 2 powi (max_exponent + 1)"
  shows "toDouble (of_int n * 2 powi k) = Finite (of_int n * 2 powi k)"
proof -
  define t :: real where "t = of_int n * 2 powi k"
  have r: "nearest t = t"
    unfolding t_def using n k by (rule nearest_exact)
  have "\<not> 2 powi (max_exponent + 1) \<le> t" "\<not> t \<le> - (2 powi (max_exponent + 1))"
    using fin unfolding t_def by linarith+
  then show ?thesis
    unfolding t_def[symmetric] toDouble_def Let_def r by simp
qed

lemma toDouble_exact:
  assumes n: "\<bar>n\<bar> < 2 ^ 53" and k: "min_exponent - 52 \<le> k" "k + 52 \<le> max_exponent"
  shows "toDouble (of_int n * 2 powi k) = Finite (of_int n * 2 powi k)"
proof -
  have "\<bar>real_of_int n * 2 powi k\<bar> < 2 powi (53 + k)"
    using n by (rule significand_bound)
  also have "\<dots> \<le> 2 powi (max_exponent + 1)"
    by (rule power_int_increasing) (use k in simp_all)
  finally show ?thesis
    using n k(1) by (intro toDouble_power)
qed

lemma is_double_nearest: "is_double t \<Longrightarrow> nearest t = t"
  by (simp add: is_double_def toDouble_def Let_def split: if_splits)

lemma double_grid:
  assumes "is_double t"
  shows "\<exists>n. t = of_int n * 2 powi (min_exponent - 52)"
proof -
  define e where "e = max (exponent \<bar>t\<bar>) min_exponent"
  define j where "j = nat (e - 52 - (min_exponent - 52))"
  have u: "ulp t = 2 powi (min_exponent - 52) * 2 ^ j"
    unfolding ulp_def e_def[symmetric] j_def by (rule powi2_split) (simp add: e_def)
  have "t = of_int (round_even (t / ulp t)) * ulp t"
    using is_double_nearest[OF assms] by (simp add: nearest_def)
  also have "\<dots> = of_int (round_even (t / ulp t) * 2 ^ j) * 2 powi (min_exponent - 52)"
    unfolding u by simp
  finally show ?thesis by blast
qed

lemma double_difference:
  assumes "is_double a" "is_double b" "a < b"
  shows "2 powi (min_exponent - 52) \<le> nearest (b - a)"
proof -
  define w :: real where "w = 2 powi (min_exponent - 52)"
  have w: "0 < w" by (simp add: w_def)
  obtain na where na: "a = of_int na * w"
    using double_grid[OF assms(1)] unfolding w_def by blast
  obtain nb where nb: "b = of_int nb * w"
    using double_grid[OF assms(2)] unfolding w_def by blast
  have d: "b - a = of_int (nb - na) * w"
    unfolding na nb by (simp add: algebra_simps)
  have "0 < real_of_int (nb - na) * w"
    using assms(3) unfolding d[symmetric] by simp
  then have "0 < real_of_int (nb - na)"
    using w by (simp only: zero_less_mult_iff) auto
  then have "1 \<le> nb - na" by simp
  then have "1 \<le> real_of_int (nb - na)" by (simp only: of_int_1_le_iff)
  then have "1 * w \<le> real_of_int (nb - na) * w"
    using w by (simp only: mult_le_cancel_right_pos)
  then have ge: "w \<le> b - a"
    unfolding d by simp
  have "nearest (of_int 1 * 2 powi (min_exponent - 52)) = of_int 1 * 2 powi (min_exponent - 52)"
    by (rule nearest_exact) simp_all
  then have one: "nearest w = w" by (simp add: w_def)
  have "nearest w \<le> nearest (b - a)"
    using ge w by (intro nearest_mono) simp_all
  then have "w \<le> nearest (b - a)" unfolding one .
  then show ?thesis unfolding w_def .
qed

lemma toDouble_mono:
  assumes "0 \<le> s" "s \<le> t" "toDouble t = Finite b"
  shows "\<exists>a. toDouble s = Finite a \<and> 0 \<le> a \<and> a \<le> b"
proof -
  have b: "nearest t = b" "\<not> 2 powi (max_exponent + 1) \<le> nearest t"
    using assms(3) by (simp_all add: toDouble_def Let_def split: if_splits)
  have le: "nearest s \<le> nearest t" using assms(1,2) by (rule nearest_mono)
  have nn: "0 \<le> nearest s" using assms(1) by (rule nearest_nonneg)
  have "- (2 powi (max_exponent + 1)) < (0::real)" by simp
  then have "toDouble s = Finite (nearest s)"
    using le nn b(2) by (simp add: toDouble_def Let_def)
  then show ?thesis using le nn b(1) by simp
qed

lemma toDouble_eval:
  assumes lo: "2 powi e \<le> \<bar>t\<bar>" and hi: "\<bar>t\<bar> < 2 powi (e + 1)"
    and e: "min_exponent \<le> e"
    and m: "round_even (t / 2 powi (e - 52)) = m"
    and fin: "\<bar>real_of_int m * 2 powi (e - 52)\<bar> < 2 powi (max_exponent + 1)"
  shows "toDouble t = Finite (of_int m * 2 powi (e - 52))"
proof -
  have ex: "exponent \<bar>t\<bar> = e" using lo hi by (rule exponent_unique)
  have u: "ulp t = 2 powi (e - 52)"
    unfolding ulp_def ex using e by simp
  have n: "nearest t = of_int m * 2 powi (e - 52)"
    unfolding nearest_def u m ..
  have "\<not> 2 powi (max_exponent + 1) \<le> nearest t" "\<not> nearest t \<le> - (2 powi (max_exponent + 1))"
    using fin unfolding n by linarith+
  then show ?thesis
    unfolding toDouble_def Let_def by (simp add: n)
qed

lemma toDouble_int:
  assumes "\<bar>n\<bar> < 2 ^ 53"
  shows "toDouble (of_int n) = Finite (of_int n)"
  using toDouble_exact[OF assms, of 0] by (simp add: min_exponent_def max_exponent_def)

lemma toDouble_0 [simp]: "toDouble 0 = Finite 0"
  using toDouble_int[of 0] by simp

lemma toDouble_1 [simp]: "toDouble 1 = Finite 1"
  using toDouble_int[of 1] by simp

lemma toDouble_numeral:
  "(numeral w :: int) < 2 ^ 53 \<Longrightarrow> toDouble (numeral w) = Finite (numeral w)"
  using toDouble_int[of "numeral w"] by simp

lemma toDouble_100: "toDouble 100 = Finite 100"
  by (simp add: toDouble_numeral)

lemma toDouble_half: "toDouble (1 / 2) = Finite (1 / 2)"
  using toDouble_exact[of 1 "- 1"] by (simp add: min_exponent_def max_exponent_def)

lemma toDouble_quarter: "toDouble (1 / 4) = Finite (1 / 4)"
  using toDouble_exact[of 1 "- 2"] by (simp add: min_exponent_def max_exponent_def)

lemma is_double_numeral: "(numeral w :: int) < 2 ^ 53 \<Longrightarrow> is_double (numeral w)"
  by (simp add: is_double_def toDouble_numeral)

lemma is_double_0 [simp]: "is_double 0"
  by (simp add: is_double_def)

lemma toDouble_not_NaN [simp]: "toDouble t \<noteq> NaN"
  by (simp add: toDouble_def Let_def)

lemma Number_subtract_Finite [simp]:
  "Number_subtract (Finite s) (Finite t) = toDouble (s - t)"
  by (simp add: Number_subtract_def)

lemma Number_add_commute: "Number_add a b = Number_add b a"
  by (cases a; cases b) (simp_all add: add.commute)

lemma Number_add_zero: "is_double t \<Longrightarrow> Number_add (Finite 0) (Finite t) = Finite t"
  by (simp add: is_double_def)

lemmas number_eval =
  toDouble_numeral toDouble_half toDouble_quarter

section \<open>Properties of the normalizer\<close>

lemma Math_min_eq_Min: "Math_min v vs = Min (set (v # vs))"
  unfolding Math_min_def by (simp only: Min.set_eq_fold)

lemma Math_max_eq_Max: "Math_max v vs = Max (set (v # vs))"
  unfolding Math_max_def by (simp only: Max.set_eq_fold)

lemma normalizeDataset_empty:
  "data ds = [] \<Longrightarrow> normalizeDataset ds = \<lparr>label = label ds, color = color ds, data = []\<rparr>"
  by (simp add: normalizeDataset_def)

lemma normalizeDataset_nonempty:
  assumes "data ds \<noteq> []"
  shows "normalizeDataset ds =
    \<lparr>label = label ds, color = None,
     data = map (normalizePoint (Min (val ` set (data ds)))
                 (toDouble (Max (val ` set (data ds)) - Min (val ` set (data ds))))) (data ds)\<rparr>"
proof -
  obtain p ps where d: "data ds = p # ps"
    using assms by (cases "data ds") auto
  have mn: "Math_min (val p) (map val ps) = Min (val ` set (data ds))"
    by (simp add: Math_min_eq_Min d)
  have mx: "Math_max (val p) (map val ps) = Max (val ` set (data ds))"
    by (simp add: Math_max_eq_Max d)
  show ?thesis
    unfolding normalizeDataset_def by (simp add: d mn mx Let_def)
qed

lemma normalizeAndFormatData_nth:
  "i < length datasets \<Longrightarrow> normalizeAndFormatData datasets ! i = normalizeDataset (datasets ! i)"
  by (simp add: normalizeAndFormatData_def)

text \<open>
  The three operations of the scaling, on a difference \<open>d\<close> between 0 and the exact
  range \<open>w\<close>, where the range the script computes is the finite double \<open>r\<close>.
\<close>

lemma scaled_bounds:
  assumes d: "0 \<le> d" "d \<le> w" and r: "toDouble w = Finite r" "0 < r"
  shows "\<exists>s. Number_multiply (Number_divide (toDouble d) (Finite r)) (Finite 100) = Finite s \<and>
           0 \<le> s \<and> s \<le> 100"
proof -
  obtain a where a: "toDouble d = Finite a" "0 \<le> a" "a \<le> r"
    using toDouble_mono[OF d r(1)] by blast
  have "0 \<le> a / r" "a / r \<le> 1"
    using a r(2) by simp_all
  then obtain q where q: "toDouble (a / r) = Finite q" "0 \<le> q" "q \<le> 1"
    using toDouble_mono[of "a / r" 1 1] by auto
  have "0 \<le> q * 100" "q * 100 \<le> 100"
    using q by simp_all
  then obtain s where s: "toDouble (q * 100) = Finite s" "0 \<le> s" "s \<le> 100"
    using toDouble_mono[of "q * 100" 100 100] toDouble_100 by auto
  have "Number_multiply (Number_divide (toDouble d) (Finite r)) (Finite 100) = Finite s"
    using a(1) q(1) s(1) r(2) by simp
  then show ?thesis using s by blast
qed

lemma scaled_max:
  assumes "toDouble w = Finite r" "0 < r"
  shows "Number_multiply (Number_divide (toDouble w) (Finite r)) (Finite 100) = Finite 100"
  using assms by (simp add: toDouble_100)

lemma scaled_min:
  assumes "r \<noteq> 0"
  shows "Number_multiply (Number_divide (toDouble 0) (Finite r)) (Finite 100) = Finite 0"
  using assms by simp

lemma range_positive:
  assumes "is_double mn" "is_double mx" "mn < mx" "toDouble (mx - mn) \<noteq> Infinity"
  shows "\<exists>r. toDouble (mx - mn) = Finite r \<and> 0 < r"
proof -
  have "2 powi (min_exponent - 52) \<le> nearest (mx - mn)"
    using assms(1-3) by (rule double_difference)
  moreover have "(0::real) < 2 powi (min_exponent - 52)" by simp
  ultimately have pos: "0 < nearest (mx - mn)" by linarith
  have "- (2 powi (max_exponent + 1)) < (0::real)" by simp
  then have "toDouble (mx - mn) = Finite (nearest (mx - mn))"
    using assms(4) pos by (simp add: toDouble_def Let_def split: if_splits)
  then show ?thesis using pos by blast
qed

lemma range_finite:
  assumes "0 \<le> w" "w \<le> 2 ^ 1023"
  shows "toDouble w \<noteq> Infinity"
proof -
  have "toDouble (of_int 1 * 2 powi 1023) = Finite (of_int 1 * 2 powi 1023)"
    by (rule toDouble_power) (simp_all add: min_exponent_def max_exponent_def)
  then have "toDouble (2 ^ 1023) = Finite (2 ^ 1023)"
    by simp
  then obtain a where "toDouble w = Finite a"
    using toDouble_mono[OF assms] by blast
  then show ?thesis by simp
qed

lemma overflow_at:
  fixes h :: real
  assumes h: "h = 2 powi max_exponent"
  shows "toDouble h = Finite h" "toDouble (- h) = Finite (- h)" "toDouble (h - (- h)) = Infinity"
proof -
  have "\<bar>real_of_int 1 * 2 powi max_exponent\<bar> < 2 powi (max_exponent + 1)"
    by (simp add: power_int_strict_increasing)
  then have "toDouble (of_int 1 * 2 powi max_exponent) = Finite (of_int 1 * 2 powi max_exponent)"
    by (intro toDouble_power) (simp_all add: min_exponent_def max_exponent_def)
  then show "toDouble h = Finite h"
    by (simp add: h)
  have "\<bar>real_of_int (- 1) * 2 powi max_exponent\<bar> < 2 powi (max_exponent + 1)"
    by (simp add: power_int_strict_increasing)
  then have "toDouble (of_int (- 1) * 2 powi max_exponent) =
      Finite (of_int (- 1) * 2 powi max_exponent)"
    by (intro toDouble_power) (simp_all add: min_exponent_def max_exponent_def)
  then show "toDouble (- h) = Finite (- h)"
    by (simp add: h)
  define w :: real where "w = 2 powi (max_exponent + 1)"
  have hh: "h - (- h) = w"
    unfolding w_def h powi2_add by simp
  have e: "exponent \<bar>w\<bar> = max_exponent + 1"
    unfolding w_def by (rule exponent_unique) (simp_all add: power_int_strict_increasing)
  have u: "ulp w = 2 powi (max_exponent + 1 - 52)"
    unfolding ulp_def e by (simp add: min_exponent_def max_exponent_def)
  have s: "w = 2 powi (max_exponent + 1 - 52) * 2 ^ nat (max_exponent + 1 - (max_exponent + 1 - 52))"
    unfolding w_def by (rule powi2_split) simp
  then have "w / ulp w = of_int (2 ^ 52)"
    unfolding u by simp
  then have "nearest w = of_int (2 ^ 52) * ulp w"
    unfolding nearest_def by (simp only: round_even_of_int)
  also have "\<dots> = w"
    unfolding u using s by simp
  finally have n: "nearest w = w" .
  show "toDouble (h - (- h)) = Infinity"
    unfolding hh toDouble_def Let_def n by (simp add: w_def)
qed


text \<open>
  C1 as stated fails where the range overflows. The doubles \<open>-2\<^sup>1\<^sup>0\<^sup>2\<^sup>3\<close>, 0 and \<open>2\<^sup>1\<^sup>0\<^sup>2\<^sup>3\<close>
  have the range \<open>2\<^sup>1\<^sup>0\<^sup>2\<^sup>4\<close>, which is \<^verbatim>\<open>Infinity\<close> as a double: the least value and the
  middle one go to 0, and the greatest value goes to \<^verbatim>\<open>NaN\<close>, not to 100.
\<close>

theorem normalize_scaling_overflow:
  "map val (data seriesWide) = [- (2 ^ 1023), 0, 2 ^ 1023] \<and>
   is_double (- (2 ^ 1023)) \<and> is_double (2 ^ 1023) \<and>
   Number_subtract (Finite (2 ^ 1023)) (Finite (- (2 ^ 1023))) = Infinity \<and>
   map y (data (normalizeAndFormatData [seriesWide] ! 0)) = [Finite 0, Finite 0, NaN]"
proof -
  define h :: real where "h = 2 ^ 1023"
  have "h = 2 powi max_exponent"
    unfolding h_def max_exponent_def by (simp only: power_int_numeral)
  note t = overflow_at[OF this]
  have pos: "0 < h" by (simp add: h_def)
  have d: "data seriesWide =
      [\<lparr>date = ''2023-01-01'', val = - h\<rparr>, \<lparr>date = ''2023-06-01'', val = 0\<rparr>,
       \<lparr>date = ''2023-12-01'', val = h\<rparr>]"
    unfolding seriesWide_def h_def by (simp only: Dataset.simps)
  have mn: "Min (val ` set (data seriesWide)) = - h"
    and mx: "Max (val ` set (data seriesWide)) = h"
    unfolding d using pos by simp_all
  have ne: "data seriesWide \<noteq> []"
    unfolding d by simp
  have s1: "- h - (- h) = 0" and s2: "0 - (- h) = h"
    by simp_all
  have nz: "Infinity \<noteq> Finite 0"
    by simp
  have nd: "normalizeDataset seriesWide =
      \<lparr>label = label seriesWide, color = None,
       data = map (normalizePoint (- h) Infinity) (data seriesWide)\<rparr>"
    using normalizeDataset_nonempty[OF ne] unfolding mn mx t(3) .
  have ys: "map y (data (normalizeDataset seriesWide)) = [Finite 0, Finite 0, NaN]"
    unfolding nd d
    by (simp only: Dataset.simps list.map normalizePoint_def Let_def DataPoint.simps nz if_False
        Number_subtract_Finite s1 s2 t toDouble_0 Number_divide.simps Number_multiply.simps
        AggregatePoint.simps mult_zero_left)
  have "map val (data seriesWide) = [- h, 0, h] \<and>
     is_double (- h) \<and> is_double h \<and>
     Number_subtract (Finite h) (Finite (- h)) = Infinity \<and>
     map y (data (normalizeAndFormatData [seriesWide] ! 0)) = [Finite 0, Finite 0, NaN]"
    using t ys by (simp add: d is_double_def normalizeAndFormatData_def)
  then show ?thesis unfolding h_def .
qed

text \<open>
  C1, amended. A series of doubles with two different values whose range does not
  overflow: every point is scaled to \<open>(v - min) / (max - min) * 100\<close>, computed in double
  arithmetic, the results are finite and lie between 0 and 100, a point of the least
  value goes to 0 and a point of the greatest value to 100, and both ends occur. (By
  \<open>range_finite\<close> a range up to \<open>2\<^sup>1\<^sup>0\<^sup>2\<^sup>3\<close> does not overflow.)
\<close>

theorem normalize_scaling:
  assumes i: "i < length datasets"
    and ne: "data (datasets ! i) \<noteq> []"
    and dbl: "\<forall>p \<in> set (data (datasets ! i)). is_double (val p)"
    and lt: "Min (val ` set (data (datasets ! i))) < Max (val ` set (data (datasets ! i)))"
    and fin: "Number_subtract (Finite (Max (val ` set (data (datasets ! i)))))
                (Finite (Min (val ` set (data (datasets ! i))))) \<noteq> Infinity"
  shows "let ds = datasets ! i;
             mn = Min (val ` set (data ds));
             mx = Max (val ` set (data ds));
             out = data (normalizeAndFormatData datasets ! i)
         in map y out =
              map (\<lambda>p. Number_multiply
                          (Number_divide (Number_subtract (Finite (val p)) (Finite mn))
                             (Number_subtract (Finite mx) (Finite mn)))
                          (Finite 100)) (data ds) \<and>
            (\<forall>q \<in> set out. \<exists>r. y q = Finite r \<and> 0 \<le> r \<and> r \<le> 100) \<and>
            (\<forall>j < length (data ds). val (data ds ! j) = mn \<longrightarrow> y (out ! j) = Finite 0) \<and>
            (\<forall>j < length (data ds). val (data ds ! j) = mx \<longrightarrow> y (out ! j) = Finite 100) \<and>
            (\<exists>q \<in> set out. y q = Finite 0) \<and> (\<exists>q \<in> set out. y q = Finite 100)"
proof -
  define ds where "ds = datasets ! i"
  define mn where "mn = Min (val ` set (data ds))"
  define mx where "mx = Max (val ` set (data ds))"
  define out where "out = data (normalizeAndFormatData datasets ! i)"
  define scaled :: "DataPoint \<Rightarrow> number" where "scaled = (\<lambda>p. Number_multiply
      (Number_divide (Number_subtract (Finite (val p)) (Finite mn))
         (Number_subtract (Finite mx) (Finite mn))) (Finite 100))"
  have ne': "data ds \<noteq> []" and lt': "mn < mx"
    and dbl': "\<forall>p \<in> set (data ds). is_double (val p)"
    and fin': "toDouble (mx - mn) \<noteq> Infinity"
    using ne lt dbl fin by (simp_all add: ds_def mn_def mx_def)
  have fs: "finite (val ` set (data ds))" "val ` set (data ds) \<noteq> {}"
    using ne' by simp_all
  have "mn \<in> val ` set (data ds)" unfolding mn_def using fs by (rule Min_in)
  then obtain pmin where pmin: "pmin \<in> set (data ds)" "val pmin = mn" by auto
  have "mx \<in> val ` set (data ds)" unfolding mx_def using fs by (rule Max_in)
  then obtain pmax where pmax: "pmax \<in> set (data ds)" "val pmax = mx" by auto
  have "is_double mn" "is_double mx"
    using dbl' pmin pmax by auto
  then obtain r where r: "toDouble (mx - mn) = Finite r" "0 < r"
    using range_positive[OF _ _ lt' fin'] by blast
  have out: "out = map (normalizePoint mn (toDouble (mx - mn))) (data ds)"
    using i normalizeDataset_nonempty[OF ne']
    by (simp add: out_def normalizeAndFormatData_def ds_def mn_def mx_def)
  have yv: "y (normalizePoint mn (toDouble (mx - mn)) p) = scaled p" for p
    using r by (simp add: normalizePoint_def scaled_def)
  have sc: "scaled p = Number_multiply (Number_divide (toDouble (val p - mn)) (Finite r)) (Finite 100)"
    for p
    by (simp add: scaled_def r(1))
  have ys: "map y out = map scaled (data ds)"
    by (simp add: out yv)
  have between: "mn \<le> val p \<and> val p \<le> mx" if "p \<in> set (data ds)" for p
    using that fs by (simp add: mn_def mx_def)
  have "\<exists>s. scaled p = Finite s \<and> 0 \<le> s \<and> s \<le> 100" if "p \<in> set (data ds)" for p
    unfolding sc using between[OF that] r by (intro scaled_bounds[of _ "mx - mn"]) simp_all
  then have bounds: "\<forall>q \<in> set out. \<exists>s. y q = Finite s \<and> 0 \<le> s \<and> s \<le> 100"
    unfolding out by (simp add: yv)
  have y_lo: "scaled p = Finite 0" if "val p = mn" for p
    unfolding sc that using scaled_min[of r] r(2) by simp
  have y_hi: "scaled p = Finite 100" if "val p = mx" for p
    unfolding sc that using r by (rule scaled_max)
  have lo: "\<forall>j < length (data ds). val (data ds ! j) = mn \<longrightarrow> y (out ! j) = Finite 0"
    by (simp add: out yv y_lo)
  have hi: "\<forall>j < length (data ds). val (data ds ! j) = mx \<longrightarrow> y (out ! j) = Finite 100"
    by (simp add: out yv y_hi)
  have ex0: "\<exists>q \<in> set out. y q = Finite 0"
    unfolding out using pmin y_lo by (auto simp: yv)
  have ex100: "\<exists>q \<in> set out. y q = Finite 100"
    unfolding out using pmax y_hi by (auto simp: yv)
  show ?thesis
    using ys bounds lo hi ex0 ex100
    unfolding Let_def ds_def[symmetric] mn_def[symmetric] mx_def[symmetric] out_def[symmetric]
      scaled_def[symmetric]
    by blast
qed

theorem normalize_scaling_witness:
  "map val (data ([seriesA] ! 0)) = [10, 30, 20] \<and>
   is_double 10 \<and> is_double 30 \<and> is_double 20 \<and>
   Min (val ` set (data ([seriesA] ! 0))) = 10 \<and>
   Max (val ` set (data ([seriesA] ! 0))) = 30 \<and>
   Number_subtract (Finite 30) (Finite 10) = Finite 20 \<and>
   map y (data (normalizeAndFormatData [seriesA] ! 0)) = [Finite 0, Finite 100, Finite 50]"
proof -
  have i: "0 < length [seriesA]" by simp
  have d: "data ([seriesA] ! 0) =
             [\<lparr>date = ''2023-01-01'', val = 10\<rparr>, \<lparr>date = ''2023-06-01'', val = 30\<rparr>,
              \<lparr>date = ''2023-12-01'', val = 20\<rparr>]"
    by (simp add: seriesA_def)
  have ne: "data ([seriesA] ! 0) \<noteq> []"
    unfolding d by simp
  have dbl: "is_double 10" "is_double 30" "is_double 20"
    by (simp_all add: is_double_numeral)
  have dbl': "\<forall>p \<in> set (data ([seriesA] ! 0)). is_double (val p)"
    unfolding d using dbl by simp
  have mn: "Min (val ` set (data ([seriesA] ! 0))) = 10"
    unfolding d by simp
  have mx: "Max (val ` set (data ([seriesA] ! 0))) = 30"
    unfolding d by simp
  have lt: "Min (val ` set (data ([seriesA] ! 0))) < Max (val ` set (data ([seriesA] ! 0)))"
    unfolding mn mx by simp
  have rng: "Number_subtract (Finite 30) (Finite 10) = Finite 20"
    by (simp add: number_eval)
  have fin: "Number_subtract (Finite (Max (val ` set (data ([seriesA] ! 0)))))
      (Finite (Min (val ` set (data ([seriesA] ! 0))))) \<noteq> Infinity"
    unfolding mn mx rng by simp
  have "map y (data (normalizeAndFormatData [seriesA] ! 0)) =
          map (\<lambda>p. Number_multiply
                     (Number_divide (Number_subtract (Finite (val p)) (Finite 10))
                        (Number_subtract (Finite 30) (Finite 10)))
                     (Finite 100)) (data ([seriesA] ! 0))"
    using normalize_scaling[OF i ne dbl' lt fin] unfolding Let_def mn mx by blast
  then have "map y (data (normalizeAndFormatData [seriesA] ! 0)) =
      [Finite 0, Finite 100, Finite 50]"
    unfolding d by (simp add: number_eval)
  then show ?thesis using mn mx dbl rng unfolding d by simp
qed

lemma image_single:
  assumes d: "xs = p # ps"
    and same: "\<forall>a \<in> set xs. \<forall>b \<in> set xs. f a = f b"
  shows "f ` set xs = {f p}"
proof -
  have p: "p \<in> set xs" using d by simp
  have "f a = f p" if "a \<in> set xs" for a
    using same that p by blast
  then show ?thesis using p by blast
qed

lemma normalizeDataset_constant:
  assumes ne: "data ds \<noteq> []"
    and same: "\<forall>p \<in> set (data ds). \<forall>q \<in> set (data ds). val p = val q"
  shows "data (normalizeDataset ds) =
    map (normalizePoint (Min (val ` set (data ds))) (Finite 0)) (data ds)"
proof -
  obtain p ps where d: "data ds = p # ps"
    using ne by (cases "data ds") auto
  have "val ` set (data ds) = {val p}"
    using d same by (rule image_single)
  then have rng: "toDouble (Max (val ` set (data ds)) - Min (val ` set (data ds))) = Finite 0"
    by simp
  show ?thesis
    unfolding normalizeDataset_nonempty[OF ne] rng by simp
qed

text \<open>
  C3. A non-empty series whose values are all the same, a series of one point among
  them: every point is given the normalized value 50.
\<close>

theorem normalize_constant_series:
  assumes i: "i < length datasets"
    and ne: "data (datasets ! i) \<noteq> []"
    and same: "\<forall>p \<in> set (data (datasets ! i)). \<forall>q \<in> set (data (datasets ! i)). val p = val q"
  shows "length (data (normalizeAndFormatData datasets ! i)) = length (data (datasets ! i)) \<and>
         (\<forall>q \<in> set (data (normalizeAndFormatData datasets ! i)). y q = Finite 50)"
  unfolding normalizeAndFormatData_nth[OF i] normalizeDataset_constant[OF ne same]
  by (simp add: normalizePoint_def)

theorem normalize_constant_series_witness:
  "map val (data ([seriesA, seriesFlat] ! 1)) = [7, 7] \<and>
   length (data (normalizeAndFormatData [seriesA, seriesFlat] ! 1)) = 2 \<and>
   y (data (normalizeAndFormatData [seriesA, seriesFlat] ! 1) ! 0) = Finite 50 \<and>
   y (data (normalizeAndFormatData [seriesA, seriesFlat] ! 1) ! 1) = Finite 50"
proof -
  have i: "1 < length [seriesA, seriesFlat]" by simp
  have d: "data ([seriesA, seriesFlat] ! 1) =
             [\<lparr>date = ''2023-01-01'', val = 7\<rparr>, \<lparr>date = ''2023-06-01'', val = 7\<rparr>]"
    by (simp add: seriesFlat_def)
  have ne: "data ([seriesA, seriesFlat] ! 1) \<noteq> []"
    unfolding d by simp
  have same: "\<forall>p \<in> set (data ([seriesA, seriesFlat] ! 1)).
                \<forall>q \<in> set (data ([seriesA, seriesFlat] ! 1)). val p = val q"
    unfolding d by simp
  have r: "length (data (normalizeAndFormatData [seriesA, seriesFlat] ! 1)) = 2 \<and>
           (\<forall>q \<in> set (data (normalizeAndFormatData [seriesA, seriesFlat] ! 1)). y q = Finite 50)"
    using normalize_constant_series[OF i ne same] unfolding d by simp
  then have "y (data (normalizeAndFormatData [seriesA, seriesFlat] ! 1) ! 0) = Finite 50"
    and "y (data (normalizeAndFormatData [seriesA, seriesFlat] ! 1) ! 1) = Finite 50"
    by (simp_all add: nth_mem del: One_nat_def)
  then show ?thesis using r unfolding d by simp
qed

lemma filterDatasets_nth:
  "i < length datasets \<Longrightarrow> filterDatasets tz sel datasets ! i = filterDataset tz sel (datasets ! i)"
  by (simp add: filterDatasets_def)

text \<open>
  C5. A series without points is normalized to a series without points: the result is
  the series itself with an empty \<open>data\<close>, no value is computed for it. So is a series
  that the filters have emptied.
\<close>

theorem normalize_empty_series:
  assumes i: "i < length datasets"
  shows "(data (datasets ! i) = [] \<longrightarrow>
            normalizeAndFormatData datasets ! i =
              \<lparr>label = label (datasets ! i), color = color (datasets ! i), data = []\<rparr>) \<and>
         (data (filterDataset tz sel (datasets ! i)) = [] \<longrightarrow>
            data (normalizeAndFormatData (filterDatasets tz sel datasets) ! i) = [])"
  using i
  by (simp add: normalizeAndFormatData_nth filterDatasets_nth normalizeDataset_empty filterDatasets_def)

theorem normalize_empty_series_witness:
  "data ([seriesA, seriesEmpty] ! 1) = [] \<and>
   normalizeAndFormatData [seriesA, seriesEmpty] ! 1 =
     \<lparr>label = ''Forks'', color = Some ''rgba(255, 193, 7, 1)'', data = []\<rparr> \<and>
   data (filterDataset (\<lambda>t. 0)
     \<lparr>selectedYear = ''2022'', selectedQuarter = ''all'', selectedMonth = ''all''\<rparr>
     ([seriesA, seriesEmpty] ! 0)) = [] \<and>
   data (normalizeAndFormatData (filterDatasets (\<lambda>t. 0)
     \<lparr>selectedYear = ''2022'', selectedQuarter = ''all'', selectedMonth = ''all''\<rparr>
     [seriesA, seriesEmpty]) ! 0) = []"
proof -
  let ?sel = "\<lparr>selectedYear = ''2022'', selectedQuarter = ''all'', selectedMonth = ''all''\<rparr>"
  have e1: "data ([seriesA, seriesEmpty] ! 1) = []"
    by (simp add: seriesEmpty_def)
  have e2: "data (filterDataset (\<lambda>t. 0) ?sel ([seriesA, seriesEmpty] ! 0)) = []"
    by (simp add: seriesA_def filterDataset_def filterByYear_def filterByQuarter_def
        filterByMonth_def yearCallback_def new_Date_def digit_val_def DaysInMonth_def
        Date_getFullYear_def LocalTime_def toString_def digit_char_def)
  have i1: "1 < length [seriesA, seriesEmpty]" and i0: "0 < length [seriesA, seriesEmpty]"
    by simp_all
  have "normalizeAndFormatData [seriesA, seriesEmpty] ! 1 =
          \<lparr>label = label ([seriesA, seriesEmpty] ! 1), color = color ([seriesA, seriesEmpty] ! 1),
           data = []\<rparr>"
    using normalize_empty_series[OF i1] e1 by blast
  moreover have "data (normalizeAndFormatData (filterDatasets (\<lambda>t. 0) ?sel
      [seriesA, seriesEmpty]) ! 0) = []"
    using normalize_empty_series[OF i0, of "\<lambda>t. 0" ?sel] e2 by blast
  ultimately show ?thesis using e1 e2 by (simp add: seriesEmpty_def)
qed

text \<open>
  C6 as stated fails on a series without points: its result keeps \<open>color\<close>, as the
  copy \<^verbatim>\<open>{ ...dataset, data: [] }\<close> keeps every property of the series.
\<close>

theorem normalize_empty_series_keeps_color:
  "color (normalizeAndFormatData [seriesEmpty] ! 0) = Some ''rgba(255, 193, 7, 1)''"
  by (simp add: normalizeAndFormatData_def normalizeDataset_def seriesEmpty_def)

text \<open>
  C6, amended. The result of a series has the label of the series and one normalized
  point for each of its points, in their order, with the date and the original value of
  the point. For a series with points the result has the fields \<open>label\<close> and \<open>data\<close>
  only (\<open>color\<close> is absent); for a series without points it has \<open>color\<close> as well,
  as the series has it, and its \<open>data\<close> is empty.
\<close>

theorem normalize_output_shape:
  assumes i: "i < length datasets"
  shows "let ds = datasets ! i; out = normalizeAndFormatData datasets ! i
         in label out = label ds \<and>
            map x (data out) = map date (data ds) \<and>
            map originalValue (data out) = map val (data ds) \<and>
            (data ds \<noteq> [] \<longrightarrow> color out = None) \<and>
            (data ds = [] \<longrightarrow> color out = color ds \<and> data out = [])"
proof (cases "data (datasets ! i) = []")
  case True
  then show ?thesis
    using i by (simp add: normalizeAndFormatData_nth normalizeDataset_empty)
next
  case False
  then show ?thesis
    using i by (simp add: normalizeAndFormatData_nth normalizeDataset_nonempty normalizePoint_def
      comp_def)
qed


theorem normalize_output_shape_witness:
  "normalizeAndFormatData [seriesA, seriesEmpty] ! 0 =
     \<lparr>label = ''Commits'', color = None,
      data = [\<lparr>x = ''2023-01-01'', y = Finite 0, originalValue = 10\<rparr>,
              \<lparr>x = ''2023-06-01'', y = Finite 100, originalValue = 30\<rparr>,
              \<lparr>x = ''2023-12-01'', y = Finite 50, originalValue = 20\<rparr>]\<rparr> \<and>
   label (normalizeAndFormatData [seriesA, seriesEmpty] ! 1) = ''Forks'' \<and>
   color (normalizeAndFormatData [seriesA, seriesEmpty] ! 1) = Some ''rgba(255, 193, 7, 1)'' \<and>
   data (normalizeAndFormatData [seriesA, seriesEmpty] ! 1) = []"
proof -
  have i0: "0 < length [seriesA, seriesEmpty]" and i1: "1 < length [seriesA, seriesEmpty]"
    by simp_all
  have a: "normalizeAndFormatData [seriesA, seriesEmpty] ! 0 =
     \<lparr>label = ''Commits'', color = None,
      data = [\<lparr>x = ''2023-01-01'', y = Finite 0, originalValue = 10\<rparr>,
              \<lparr>x = ''2023-06-01'', y = Finite 100, originalValue = 30\<rparr>,
              \<lparr>x = ''2023-12-01'', y = Finite 50, originalValue = 20\<rparr>]\<rparr>"
    by (simp add: normalizeAndFormatData_def normalizeDataset_def normalizePoint_def
        Math_min_def Math_max_def seriesA_def number_eval)
  have e: "data ([seriesA, seriesEmpty] ! 1) = []"
    by (simp add: seriesEmpty_def)
  have "label (normalizeAndFormatData [seriesA, seriesEmpty] ! 1) =
          label ([seriesA, seriesEmpty] ! 1) \<and>
        color (normalizeAndFormatData [seriesA, seriesEmpty] ! 1) =
          color ([seriesA, seriesEmpty] ! 1) \<and>
        data (normalizeAndFormatData [seriesA, seriesEmpty] ! 1) = []"
    using normalize_output_shape[OF i1] e unfolding Let_def by blast
  then show ?thesis using a by (simp add: seriesEmpty_def)
qed

section \<open>Properties of the filter engine\<close>

subsection \<open>Numbers as strings\<close>

declare digits_of.simps [simp del]

lemma digit_val_digit_char: "d < 10 \<Longrightarrow> digit_val (digit_char d) = Some (int d)"
proof -
  assume "d < 10"
  then consider "d = 0" | "d = 1" | "d = 2" | "d = 3" | "d = 4" | "d = 5" | "d = 6"
    | "d = 7" | "d = 8" | "d = 9"
    by atomize_elim arith
  then show ?thesis
    by cases (simp_all add: digit_char_def digit_val_def)
qed

lemma digits_val_append:
  "digits_val acc (s @ t) =
     (case digits_val acc s of None \<Rightarrow> None | Some v \<Rightarrow> digits_val v t)"
  by (induction s arbitrary: acc) (simp_all split: option.splits)

lemma digits_val_digits_of: "digits_val 0 (digits_of n) = Some (int n)"
proof (induction n rule: digits_of.induct)
  case (1 n)
  show ?case
  proof (cases "n < 10")
    case True
    then show ?thesis
      by (subst digits_of.simps) (simp add: digit_val_digit_char)
  next
    case False
    then have IH: "digits_val 0 (digits_of (n div 10)) = Some (int (n div 10))"
      using "1.IH" by simp
    have "n mod 10 < 10" by simp
    then have d: "digit_val (digit_char (n mod 10)) = Some (int (n mod 10))"
      by (rule digit_val_digit_char)
    have "digits_of n = digits_of (n div 10) @ [digit_char (n mod 10)]"
      using False by (subst digits_of.simps) simp
    then show ?thesis
      by (simp add: digits_val_append IH d zdiv_int zmod_int)
  qed
qed

lemma digits_val_Some_digit: "digits_val acc s = Some v \<Longrightarrow> c \<in> set s \<Longrightarrow> digit_val c \<noteq> None"
  by (induction s arbitrary: acc) (auto split: option.splits)

lemma digits_of_digit: "c \<in> set (digits_of n) \<Longrightarrow> digit_val c \<noteq> None"
  using digits_val_Some_digit[OF digits_val_digits_of] .

lemma digits_of_no_dash: "CHR ''-'' \<notin> set (digits_of n)"
  using digits_of_digit[of "CHR ''-''" n] by (auto simp: digit_val_def)

lemma digits_of_nonempty: "digits_of n \<noteq> []"
  by (subst digits_of.simps) simp

lemma digits_of_inj: "digits_of m = digits_of n \<Longrightarrow> m = n"
proof -
  assume h: "digits_of m = digits_of n"
  have "Some (int m) = digits_val 0 (digits_of m)"
    by (simp only: digits_val_digits_of)
  also have "\<dots> = digits_val 0 (digits_of n)"
    by (simp only: h)
  also have "\<dots> = Some (int n)"
    by (simp only: digits_val_digits_of)
  finally show "m = n" by simp
qed

lemma Number_digits_of: "Number (digits_of n) = Some (int n)"
  by (simp add: Number_def digits_val_digits_of)

lemma toString_nonneg: "0 \<le> i \<Longrightarrow> toString (Some i) = digits_of (nat i)"
  by (simp add: toString_def)

lemma toString_inj: "toString a = toString b \<Longrightarrow> a = b"
proof -
  assume eq: "toString a = toString b"
  have NaN: "toString (Some i) \<noteq> ''NaN''" for i
  proof
    assume h: "toString (Some i) = ''NaN''"
    show False
    proof (cases "i < 0")
      case True
      then show ?thesis using h by (simp add: toString_def)
    next
      case False
      then have "CHR ''N'' \<in> set (digits_of (nat i))"
        using h by (simp add: toString_def)
      then show ?thesis using digits_of_digit by (fastforce simp: digit_val_def)
    qed
  qed
  have some: "i = j" if h: "toString (Some i) = toString (Some j)" for i j
  proof -
    have neg_pos: False if "u < 0" "0 \<le> v" "toString (Some u) = toString (Some v)" for u v
    proof -
      have "CHR ''-'' # digits_of (nat (- u)) = digits_of (nat v)"
        using that by (simp add: toString_def)
      then have "CHR ''-'' \<in> set (digits_of (nat v))"
        by (metis list.set_intros(1))
      then show False using digits_of_no_dash by simp
    qed
    consider "i < 0" "j < 0" | "i < 0" "0 \<le> j" | "0 \<le> i" "j < 0" | "0 \<le> i" "0 \<le> j"
      by linarith
    then show ?thesis
    proof cases
      case 1
      then have "digits_of (nat (- i)) = digits_of (nat (- j))"
        using h by (simp add: toString_def)
      then have "nat (- i) = nat (- j)" by (rule digits_of_inj)
      then show ?thesis using 1 by simp
    next
      case 2
      then show ?thesis using neg_pos h by blast
    next
      case 3
      then show ?thesis using neg_pos[of j i] h by simp
    next
      case 4
      then have "digits_of (nat i) = digits_of (nat j)"
        using h by (simp add: toString_def)
      then have "nat i = nat j" by (rule digits_of_inj)
      then show ?thesis using 4 by simp
    qed
  qed
  show ?thesis
  proof (cases a)
    case None
    then show ?thesis using eq NaN by (cases b) (auto simp: toString_def)
  next
    case (Some i)
    then show ?thesis using eq NaN some
      by (cases b) (auto simp: toString_def[of None])
  qed
qed

lemma toString_not_all: "toString n \<noteq> ''all''"
proof
  assume h: "toString n = ''all''"
  show False
  proof (cases n)
    case None
    then show ?thesis using h by (simp add: toString_def)
  next
    case (Some i)
    show ?thesis
    proof (cases "i < 0")
      case True
      then show ?thesis using h Some by (simp add: toString_def)
    next
      case False
      then have "CHR ''a'' \<in> set (digits_of (nat i))"
        using h Some by (simp add: toString_def)
      then show ?thesis using digits_of_digit by (fastforce simp: digit_val_def)
    qed
  qed
qed

lemma split_no_sep: "sep \<notin> set s \<Longrightarrow> split sep s = [s]"
  by (induction s) auto

lemma split_append_sep:
  "sep \<notin> set s \<Longrightarrow> split sep (s @ sep # t) = s # split sep t"
  by (induction s) auto


subsection \<open>The three steps\<close>

lemma floor_third: "\<lfloor>real_of_int m / 3\<rfloor> = m div 3"
  using floor_divide_of_int_eq[of m 3] by simp

lemma getQuarter_eq:
  "getQuarter tz d = (case Date_getMonth tz d of None \<Rightarrow> None | Some m \<Rightarrow> Some (m div 3 + 1))"
  by (simp add: getQuarter_def floor_third split: option.splits)

lemma filterByQuarter_toString:
  "filterByQuarter tz (toString (Some q)) points =
     filter (\<lambda>p. getQuarter tz (new_Date (date p)) = Some q) points"
proof -
  have "(toString n = toString (Some q)) = (n = Some q)" for n
    using toString_inj by blast
  then have "quarterCallback tz (toString (Some q)) =
      (\<lambda>p. getQuarter tz (new_Date (date p)) = Some q)"
    by (intro ext) (simp add: quarterCallback_def Let_def)
  then show ?thesis
    by (simp add: filterByQuarter_def toString_not_all)
qed

lemma new_Date_month_range: "new_Date s = Date_UTC yr m d \<Longrightarrow> 0 \<le> m \<and> m \<le> 11"
  by (auto simp: new_Date_def split: if_splits option.splits)

lemma LocalTime_month_range:
  "LocalTime tz (Date_UTC yr m d) = Date_UTC yr' m' d' \<Longrightarrow> 0 \<le> m \<Longrightarrow> m \<le> 11 \<Longrightarrow>
     0 \<le> m' \<and> m' \<le> 11"
  by (auto simp: LocalTime_def split: if_splits)

lemma getMonth_valid:
  assumes "new_Date s \<noteq> Invalid_Date"
  shows "\<exists>m. Date_getMonth tz (new_Date s) = Some m \<and> 0 \<le> m \<and> m \<le> 11"
proof -
  obtain yr m d where nd: "new_Date s = Date_UTC yr m d"
    using assms by (cases "new_Date s") auto
  have r: "0 \<le> m \<and> m \<le> 11" using nd by (rule new_Date_month_range)
  obtain yr' m' d' where lt: "LocalTime tz (Date_UTC yr m d) = Date_UTC yr' m' d'"
    by (cases "LocalTime tz (Date_UTC yr m d)") (auto simp: LocalTime_def split: if_splits)
  have "0 \<le> m' \<and> m' \<le> 11" using lt r by (intro LocalTime_month_range) auto
  then show ?thesis by (simp add: Date_getMonth_def nd lt)
qed

lemma quarter_valid:
  assumes "new_Date s \<noteq> Invalid_Date"
  shows "\<exists>m. Date_getMonth tz (new_Date s) = Some m \<and> 0 \<le> m \<and> m \<le> 11 \<and>
           getQuarter tz (new_Date s) = Some (m div 3 + 1) \<and>
           1 \<le> m div 3 + 1 \<and> m div 3 + 1 \<le> 4"
proof -
  obtain m where m: "Date_getMonth tz (new_Date s) = Some m" "0 \<le> m" "m \<le> 11"
    using getMonth_valid[OF assms] by blast
  have "getQuarter tz (new_Date s) = Some (m div 3 + 1)"
    by (simp add: getQuarter_eq m(1))
  moreover have "1 \<le> m div 3 + 1 \<and> m div 3 + 1 \<le> 4"
    using m(2,3) by presburger
  ultimately show ?thesis using m by blast
qed

text \<open>
  The quarter of a date is \<open>month div 3 + 1\<close> of the month index \<^verbatim>\<open>getMonth\<close> returns,
  the integer part of a third of the index plus one: index 0 gives quarter 1, index 5
  quarter 2 and index 11 quarter 4, and every date that parses has a month index from
  0 to 11 and so a quarter from 1 to 4. With the quarter \<open>q\<close> selected, the quarter step
  keeps the points whose date has quarter \<open>q\<close> by that index, and no other point.
\<close>

lemma quarter_of_month:
  "getQuarter tz d = (case Date_getMonth tz d of None \<Rightarrow> None | Some m \<Rightarrow> Some (m div 3 + 1)) \<and>
   (Date_getMonth tz d = Some 0 \<longrightarrow> getQuarter tz d = Some 1) \<and>
   (Date_getMonth tz d = Some 5 \<longrightarrow> getQuarter tz d = Some 2) \<and>
   (Date_getMonth tz d = Some 11 \<longrightarrow> getQuarter tz d = Some 4) \<and>
   (new_Date s \<noteq> Invalid_Date \<longrightarrow>
      (\<exists>m. Date_getMonth tz (new_Date s) = Some m \<and> 0 \<le> m \<and> m \<le> 11 \<and>
           getQuarter tz (new_Date s) = Some (m div 3 + 1) \<and>
           1 \<le> m div 3 + 1 \<and> m div 3 + 1 \<le> 4))"
proof -
  have "getQuarter tz d =
      (case Date_getMonth tz d of None \<Rightarrow> None | Some m \<Rightarrow> Some (m div 3 + 1))"
    by (rule getQuarter_eq)
  moreover from this have "Date_getMonth tz d = Some 0 \<longrightarrow> getQuarter tz d = Some 1"
    and "Date_getMonth tz d = Some 5 \<longrightarrow> getQuarter tz d = Some 2"
    and "Date_getMonth tz d = Some 11 \<longrightarrow> getQuarter tz d = Some 4"
    by simp_all
  ultimately show ?thesis
    using quarter_valid[of s tz] by blast
qed

text \<open>
  Local time. Where the offset is never negative (UTC and the zones east of it), local
  time at midnight UTC of a day is on that day, and \<^verbatim>\<open>getMonth\<close> returns the month of
  the date as written.
\<close>

lemma LocalTime_east: "\<forall>t. 0 \<le> tz t \<Longrightarrow> LocalTime tz dt = dt"
  by (cases dt) (simp_all add: LocalTime_def)

lemma getMonth_east: "\<forall>t. 0 \<le> tz t \<Longrightarrow> Date_getMonth tz dt = Date_getUTCMonth dt"
  by (simp add: Date_getMonth_def Date_getUTCMonth_def LocalTime_east)

lemma quarter_filter_east:
  assumes "\<forall>t. 0 \<le> tz t"
  shows "filterByQuarter tz (toString (Some q)) points =
     filter (\<lambda>p. \<exists>m. Date_getUTCMonth (new_Date (date p)) = Some m \<and> m div 3 + 1 = q) points"
proof -
  have "(getQuarter tz dt = Some q) = (\<exists>m. Date_getUTCMonth dt = Some m \<and> m div 3 + 1 = q)"
    for dt
    unfolding getQuarter_eq getMonth_east[OF assms]
    by (cases "Date_getUTCMonth dt") auto
  then show ?thesis
    unfolding filterByQuarter_toString by simp
qed

lemma month_pair_parts:
  assumes "0 \<le> a" "0 \<le> b"
  shows "monthPair (toString (Some a) @ ''-'' @ toString (Some b)) = (Some a, Some b)"
proof -
  have "split CHR ''-'' (digits_of (nat a) @ CHR ''-'' # digits_of (nat b)) =
          [digits_of (nat a), digits_of (nat b)]"
    by (simp add: split_append_sep split_no_sep digits_of_no_dash)
  then show ?thesis
    using assms by (simp add: monthPair_def element_def toString_nonneg Number_digits_of)
qed

lemma month_pair_not_all: "0 \<le> a \<Longrightarrow> toString (Some a) @ ''-'' @ toString (Some b) \<noteq> ''all''"
proof
  assume a: "0 \<le> a" and h: "toString (Some a) @ ''-'' @ toString (Some b) = ''all''"
  have "digits_of (nat a) \<noteq> []" by (rule digits_of_nonempty)
  then obtain c cs where c: "digits_of (nat a) = c # cs" by (cases "digits_of (nat a)") auto
  then have "c = CHR ''a''" using h a by (simp add: toString_nonneg)
  moreover have "digit_val c \<noteq> None" using digits_of_digit[of c "nat a"] c by simp
  ultimately show False by (simp add: digit_val_def)
qed

lemma strict_equals_Some: "strict_equals m (Some a) = (m = Some a)"
  by (cases m) (auto simp: strict_equals_def)

lemma filterByMonth_pair:
  assumes "0 \<le> a" "0 \<le> b"
  shows "filterByMonth tz (toString (Some a) @ ''-'' @ toString (Some b)) points =
     filter (\<lambda>p. Date_getMonth tz (new_Date (date p)) = Some a \<or>
                  Date_getMonth tz (new_Date (date p)) = Some b) points"
proof -
  have cb: "monthCallback tz (Some a) (Some b) =
      (\<lambda>p. Date_getMonth tz (new_Date (date p)) = Some a \<or>
           Date_getMonth tz (new_Date (date p)) = Some b)"
    by (rule ext) (simp add: monthCallback_def strict_equals_Some Let_def)
  show ?thesis
    unfolding filterByMonth_def month_pair_parts[OF assms]
    using month_pair_not_all[OF assms(1)] by (simp add: cb)
qed

lemma month_pair_filter_east:
  assumes "\<forall>t. 0 \<le> tz t" "0 \<le> a" "0 \<le> b"
  shows "filterByMonth tz (toString (Some a) @ ''-'' @ toString (Some b)) points =
     filter (\<lambda>p. Date_getUTCMonth (new_Date (date p)) = Some a \<or>
                  Date_getUTCMonth (new_Date (date p)) = Some b) points"
  unfolding filterByMonth_pair[OF assms(2,3)] getMonth_east[OF assms(1)] ..

lemmas date_eval =
  new_Date_def digit_val_def DaysInMonth_def InLeapYear_def Date_getFullYear_def
  Date_getMonth_def LocalTime_def DayFromYear_def DayWithinYear_def msPerDay_def
  Date_getTime_def Date_getUTCMonth_def

text \<open>
  C4 fails where local time is behind UTC. The date of a point is read by
  \<^verbatim>\<open>new Date\<close> as midnight UTC and its month by \<^verbatim>\<open>getMonth\<close> in local time, which five
  hours behind UTC is the evening of the day before. Of the points dated 1 January,
  1 February and 1 March 2023 (months 0, 1 and 2) the selection \<^verbatim>\<open>"0-1"\<close> then keeps the
  last two: the point of January is dropped and the point of March is kept. On UTC the
  same selection keeps the points of January and February.
\<close>

theorem month_pair_filter_west:
  "map (\<lambda>p. Date_getUTCMonth (new_Date (date p))) (data seriesMonthly) = [Some 0, Some 1, Some 2] \<and>
   map (\<lambda>p. Date_getMonth utcMinus5 (new_Date (date p))) (data seriesMonthly) =
     [Some 11, Some 0, Some 1] \<and>
   filterByMonth utcMinus5 ''0-1'' (data seriesMonthly) =
     [\<lparr>date = ''2023-02-01'', val = 6\<rparr>, \<lparr>date = ''2023-03-01'', val = 9\<rparr>] \<and>
   filterByMonth (\<lambda>t. 0) ''0-1'' (data seriesMonthly) =
     [\<lparr>date = ''2023-01-01'', val = 3\<rparr>, \<lparr>date = ''2023-02-01'', val = 6\<rparr>]"
proof -
  have enc: "toString (Some 0) @ ''-'' @ toString (Some 1) = ''0-1''"
    by (simp add: toString_def digits_of.simps digit_char_def)
  have utc: "map (\<lambda>p. Date_getUTCMonth (new_Date (date p))) (data seriesMonthly) =
      [Some 0, Some 1, Some 2]"
    by (simp add: seriesMonthly_def date_eval)
  have loc: "map (\<lambda>p. Date_getMonth utcMinus5 (new_Date (date p))) (data seriesMonthly) =
      [Some 11, Some 0, Some 1]"
    by (simp add: seriesMonthly_def utcMinus5_def date_eval)
  have loc0: "map (\<lambda>p. Date_getMonth (\<lambda>t. 0) (new_Date (date p))) (data seriesMonthly) =
      [Some 0, Some 1, Some 2]"
    by (simp add: seriesMonthly_def date_eval)
  have west: "filterByMonth utcMinus5 ''0-1'' (data seriesMonthly) =
      [\<lparr>date = ''2023-02-01'', val = 6\<rparr>, \<lparr>date = ''2023-03-01'', val = 9\<rparr>]"
    using filterByMonth_pair[of 0 1 utcMinus5 "data seriesMonthly"] loc
    unfolding enc by (simp add: seriesMonthly_def)
  have zero: "filterByMonth (\<lambda>t. 0) ''0-1'' (data seriesMonthly) =
      [\<lparr>date = ''2023-01-01'', val = 3\<rparr>, \<lparr>date = ''2023-02-01'', val = 6\<rparr>]"
    using filterByMonth_pair[of 0 1 "\<lambda>t. 0" "data seriesMonthly"] loc0
    unfolding enc by (simp add: seriesMonthly_def)
  show ?thesis using utc loc west zero by blast
qed

text \<open>
  C7 fails where local time is behind UTC, by the same reading of the date. The
  derivation of the quarter from the month index is as stated (\<open>quarter_of_month\<close>), but
  five hours behind UTC the points of the scenario, dated 1 January, 1 June and
  1 December 2023, have the quarters 4, 2 and 4: the quarter \<^verbatim>\<open>"1"\<close> keeps none of them,
  not the point of January, and it keeps a point dated 1 April. On UTC it keeps the
  point of January.
\<close>

theorem quarter_filter_west:
  "map (\<lambda>p. Date_getUTCMonth (new_Date (date p))) (data seriesA) = [Some 0, Some 5, Some 11] \<and>
   map (\<lambda>p. Date_getMonth utcMinus5 (new_Date (date p))) (data seriesA) =
     [Some 11, Some 4, Some 10] \<and>
   map (\<lambda>p. getQuarter utcMinus5 (new_Date (date p))) (data seriesA) = [Some 4, Some 2, Some 4] \<and>
   filterByQuarter utcMinus5 ''1'' (data seriesA) = [] \<and>
   Date_getUTCMonth (new_Date ''2023-04-01'') = Some 3 \<and>
   filterByQuarter utcMinus5 ''1'' [\<lparr>date = ''2023-04-01'', val = 40\<rparr>] =
     [\<lparr>date = ''2023-04-01'', val = 40\<rparr>] \<and>
   filterByQuarter (\<lambda>t. 0) ''1'' (data seriesA) = [\<lparr>date = ''2023-01-01'', val = 10\<rparr>]"
proof -
  have enc: "toString (Some 1) = ''1''"
    by (simp add: toString_def digits_of.simps digit_char_def)
  have utc: "map (\<lambda>p. Date_getUTCMonth (new_Date (date p))) (data seriesA) =
      [Some 0, Some 5, Some 11]"
    by (simp add: seriesA_def date_eval)
  have loc: "map (\<lambda>p. Date_getMonth utcMinus5 (new_Date (date p))) (data seriesA) =
      [Some 11, Some 4, Some 10]"
    by (simp add: seriesA_def utcMinus5_def date_eval)
  have q: "map (\<lambda>p. getQuarter utcMinus5 (new_Date (date p))) (data seriesA) =
      [Some 4, Some 2, Some 4]"
    using loc by (simp add: getQuarter_eq seriesA_def)
  have west: "filterByQuarter utcMinus5 ''1'' (data seriesA) = []"
    using filterByQuarter_toString[of utcMinus5 1 "data seriesA"] q
    unfolding enc by (simp add: seriesA_def)
  have apr: "Date_getUTCMonth (new_Date ''2023-04-01'') = Some 3"
    by (simp add: date_eval)
  have "Date_getMonth utcMinus5 (new_Date ''2023-04-01'') = Some 2"
    by (simp add: utcMinus5_def date_eval)
  then have "getQuarter utcMinus5 (new_Date ''2023-04-01'') = Some 1"
    by (simp add: getQuarter_eq)
  then have kept: "filterByQuarter utcMinus5 ''1'' [\<lparr>date = ''2023-04-01'', val = 40\<rparr>] =
      [\<lparr>date = ''2023-04-01'', val = 40\<rparr>]"
    using filterByQuarter_toString[of utcMinus5 1 "[\<lparr>date = ''2023-04-01'', val = 40\<rparr>]"]
    unfolding enc by simp
  have "map (\<lambda>p. Date_getMonth (\<lambda>t. 0) (new_Date (date p))) (data seriesA) =
      [Some 0, Some 5, Some 11]"
    by (simp add: seriesA_def date_eval)
  then have "map (\<lambda>p. getQuarter (\<lambda>t. 0) (new_Date (date p))) (data seriesA) =
      [Some 1, Some 2, Some 4]"
    by (simp add: getQuarter_eq seriesA_def)
  then have zero: "filterByQuarter (\<lambda>t. 0) ''1'' (data seriesA) =
      [\<lparr>date = ''2023-01-01'', val = 10\<rparr>]"
    using filterByQuarter_toString[of "\<lambda>t. 0" 1 "data seriesA"]
    unfolding enc by (simp add: seriesA_def)
  show ?thesis using utc loc q west apr kept zero by blast
qed

lemma filterByYear_filter:
  "filterByYear tz yr ps = filter (\<lambda>p. yr = ''all'' \<or> yearCallback tz yr p) ps"
  by (simp add: filterByYear_def)

lemma filterByQuarter_filter:
  "filterByQuarter tz q ps = filter (\<lambda>p. q = ''all'' \<or> quarterCallback tz q p) ps"
  by (simp add: filterByQuarter_def)

lemma filterByMonth_filter:
  "filterByMonth tz mp ps =
     filter (\<lambda>p. mp = ''all'' \<or> monthCallback tz (fst (monthPair mp)) (snd (monthPair mp)) p) ps"
  by (simp add: filterByMonth_def case_prod_beta)

lemma filterDataset_keeps:
  "filterDataset tz sel ds = ds\<lparr>data := filter (keeps tz sel) (data ds)\<rparr>"
  unfolding filterDataset_def Let_def filterByYear_filter filterByQuarter_filter
    filterByMonth_filter filter_filter keeps_def
  by (rule arg_cong[where f = "\<lambda>xs. ds\<lparr>data := xs\<rparr>"], rule filter_cong) auto

text \<open>
  C10. Filtering the filtered series again, under the same selection, changes nothing.
\<close>

theorem filter_idempotent:
  "filterDatasets tz sel (filterDatasets tz sel datasets) = filterDatasets tz sel datasets"
  by (simp add: filterDatasets_def filterDataset_keeps)

section \<open>Properties of the aggregator\<close>

lemma or_zero_None [simp]: "or_zero None = Finite 0"
  by (simp add: or_zero_def)

lemma or_zero_Some: "r \<noteq> NaN \<Longrightarrow> or_zero (Some r) = r"
  by (auto simp: or_zero_def)

lemma or_zero_idem [simp]: "or_zero (Some (or_zero v)) = or_zero v"
  by (simp add: or_zero_def split: option.splits)

lemma or_zero_Finite [simp]: "or_zero (Some (Finite t)) = Finite t"
  by (simp add: or_zero_def)

lemma or_zero_toDouble [simp]: "or_zero (Some (toDouble t)) = toDouble t"
  by (simp add: or_zero_Some)

lemma distinct_addPoint: "distinct (map fst m) \<Longrightarrow> distinct (map fst (addPoint p m))"
  by (simp add: addPoint_def distinct_update)

lemma map_of_addPoint:
  "map_of (addPoint p m) k =
     (if x p = k then Some (Number_add (or_zero (map_of m k)) (y p)) else map_of m k)"
  by (simp add: addPoint_def update_conv')

lemma keys_addPoint: "fst ` set (addPoint p m) = insert (x p) (fst ` set m)"
  by (simp add: addPoint_def dom_update)

lemma distinct_fold_addPoint:
  "distinct (map fst m) \<Longrightarrow> distinct (map fst (fold addPoint ps m))"
  by (induction ps arbitrary: m) (simp_all add: distinct_addPoint)

lemma keys_fold_addPoint:
  "fst ` set (fold addPoint ps m) = x ` set ps \<union> fst ` set m"
  by (induction ps arbitrary: m) (auto simp: keys_addPoint)

lemma filter_no_match: "k \<notin> x ` set ps \<Longrightarrow> filter (\<lambda>p. x p = k) ps = []"
  by (induction ps) auto

lemma filter_match: "k \<in> x ` set ps \<Longrightarrow> filter (\<lambda>p. x p = k) ps \<noteq> []"
  by (induction ps) auto

text \<open>
  The sum under a key grows by \<^verbatim>\<open>(dateMap[k] || 0) + y\<close> with every point of the key:
  a left fold over the values in the order the script meets them.
\<close>

lemma foldl_or_zero:
  "vs \<noteq> [] \<Longrightarrow>
     foldl (\<lambda>s v. Number_add (or_zero (Some s)) v) (or_zero (Some w)) vs =
     foldl (\<lambda>s v. Number_add (or_zero (Some s)) v) w vs"
  by (cases vs) simp_all

lemma map_of_fold_addPoint:
  "map_of (fold addPoint ps m) k =
     (if k \<in> x ` set ps
      then Some (foldl (\<lambda>s v. Number_add (or_zero (Some s)) v) (or_zero (map_of m k))
                  (map y (filter (\<lambda>p. x p = k) ps)))
      else map_of m k)"
proof (induction ps arbitrary: m)
  case Nil
  then show ?case by simp
next
  case (Cons p ps)
  show ?case
  proof (cases "k \<in> x ` set ps")
    case True
    then have ne: "map y (filter (\<lambda>p. x p = k) ps) \<noteq> []"
      using filter_match[of k ps] by simp
    show ?thesis
      using True by (simp add: Cons.IH map_of_addPoint foldl_or_zero[OF ne])
  next
    case False
    then show ?thesis
      by (auto simp: Cons.IH map_of_addPoint filter_no_match)
  qed
qed

lemma fold_fold_concat: "fold (\<lambda>ds. fold f (g ds)) dss m = fold f (concat (map g dss)) m"
  by (induction dss arbitrary: m) simp_all

lemma buildDateMap_concat:
  "buildDateMap dss = fold addPoint (concat (map data dss)) []"
  by (simp add: buildDateMap_def fold_fold_concat)

lemma mset_insert_sorted: "mset (insert_sorted cmp a bs) = add_mset a (mset bs)"
  by (induction bs) simp_all

lemma mset_sort_with: "mset (sort_with cmp xs) = mset xs"
  unfolding sort_with_def by (induction xs) (simp_all add: mset_insert_sorted)

lemma insert_sorted_eq_insort_key:
  "(\<And>b. b \<in> set bs \<Longrightarrow> (cmp a b \<le> 0) = (k a \<le> k b)) \<Longrightarrow>
     insert_sorted cmp a bs = insort_key k a bs"
  by (induction bs) simp_all

lemma sort_with_eq_sort_key:
  assumes "\<And>a b. a \<in> set xs \<Longrightarrow> b \<in> set xs \<Longrightarrow> (cmp a b \<le> 0) = (k a \<le> k b)"
  shows "sort_with cmp xs = sort_key k xs"
  using assms
proof (induction xs)
  case Nil
  then show ?case by (simp add: sort_with_def)
next
  case (Cons a xs)
  have IH: "sort_with cmp xs = sort_key k xs"
    using Cons by simp
  have "sort_with cmp (a # xs) = insert_sorted cmp a (sort_key k xs)"
    using IH by (simp add: sort_with_def)
  also have "\<dots> = insort_key k a (sort_key k xs)"
    using Cons.prems by (intro insert_sorted_eq_insort_key) simp
  finally show ?case by (simp add: sort_key_def)
qed

lemma sort_with_compareDates:
  assumes "\<And>a. a \<in> set xs \<Longrightarrow> new_Date (x a) \<noteq> Invalid_Date"
  shows "sort_with compareDates xs = sort_key (\<lambda>a. the (Date_getTime (new_Date (x a)))) xs"
proof (rule sort_with_eq_sort_key)
  fix a b assume "a \<in> set xs" "b \<in> set xs"
  then have "new_Date (x a) \<noteq> Invalid_Date" "new_Date (x b) \<noteq> Invalid_Date"
    using assms by simp_all
  then show "(compareDates a b \<le> 0) =
      (the (Date_getTime (new_Date (x a))) \<le> the (Date_getTime (new_Date (x b))))"
    by (cases "new_Date (x a)"; cases "new_Date (x b)")
       (simp_all add: compareDates_def Date_getTime_def)
qed

lemma sorted_sort_with_compareDates:
  assumes "\<And>a. a \<in> set xs \<Longrightarrow> new_Date (x a) \<noteq> Invalid_Date"
  shows "sorted_wrt chronological (sort_with compareDates xs)"
proof -
  let ?k = "\<lambda>a. the (Date_getTime (new_Date (x a)))"
  have "sorted (map ?k (sort_key ?k xs))" by simp
  then have "sorted_wrt (\<lambda>a b. ?k a \<le> ?k b) (sort_key ?k xs)"
    by (simp add: sorted_map)
  moreover have "chronological a b"
    if "a \<in> set (sort_key ?k xs)" "b \<in> set (sort_key ?k xs)" "?k a \<le> ?k b" for a b
  proof -
    have "new_Date (x a) \<noteq> Invalid_Date" "new_Date (x b) \<noteq> Invalid_Date"
      using that assms by simp_all
    then show ?thesis using that(3)
      by (cases "new_Date (x a)"; cases "new_Date (x b)")
         (simp_all add: chronological_def Date_getTime_def)
  qed
  ultimately have "sorted_wrt chronological (sort_key ?k xs)"
    by (rule sorted_wrt_mono_rel[rotated])
  then show ?thesis by (simp add: sort_with_compareDates[OF assms])
qed

lemma distinct_buildDateMap: "distinct (map fst (buildDateMap dss))"
  unfolding buildDateMap_concat by (rule distinct_fold_addPoint) simp

lemma keys_buildDateMap:
  "fst ` set (buildDateMap dss) = (\<Union>ds \<in> set dss. x ` set (data ds))"
  unfolding buildDateMap_concat keys_fold_addPoint by auto

lemma map_of_buildDateMap:
  "map_of (buildDateMap dss) k =
     (if k \<in> (\<Union>ds \<in> set dss. x ` set (data ds))
      then Some (foldl (\<lambda>s v. Number_add (or_zero (Some s)) v) (Finite 0)
                  (map y (filter (\<lambda>p. x p = k) (concat (map data dss)))))
      else None)"
proof -
  have "(k \<in> x ` set (concat (map data dss))) = (k \<in> (\<Union>ds \<in> set dss. x ` set (data ds)))"
    by auto
  then show ?thesis
    unfolding buildDateMap_concat map_of_fold_addPoint
    by (simp del: set_concat)
qed

text \<open>A series without a point on the key adds nothing to the values of the key.\<close>

lemma filter_series_with_key:
  "filter (\<lambda>p. x p = k) (concat (map data (filter (\<lambda>ds. k \<in> x ` set (data ds)) dss))) =
   filter (\<lambda>p. x p = k) (concat (map data dss))"
  by (induction dss) (simp_all add: filter_no_match)

text \<open>
  On finite values no sum is \<^verbatim>\<open>NaN\<close>, so that \<^verbatim>\<open>|| 0\<close> changes nothing and the fold is
  the sum of the values, in double arithmetic and in their order.
\<close>

lemma Number_add_Finite_not_NaN: "s \<noteq> NaN \<Longrightarrow> Number_add s (Finite r) \<noteq> NaN"
  by (cases s) simp_all

lemma foldl_finite:
  assumes "\<forall>v \<in> set vs. \<exists>r. v = Finite r" "s \<noteq> NaN"
  shows "foldl (\<lambda>s v. Number_add (or_zero (Some s)) v) s vs = foldl Number_add s vs"
  using assms
proof (induction vs arbitrary: s)
  case Nil
  then show ?case by simp
next
  case (Cons v vs)
  obtain r where r: "v = Finite r" using Cons.prems(1) by auto
  have "Number_add s v \<noteq> NaN"
    unfolding r using Cons.prems(2) by (rule Number_add_Finite_not_NaN)
  then have "foldl (\<lambda>s v. Number_add (or_zero (Some s)) v) (Number_add s v) vs =
      foldl Number_add (Number_add s v) vs"
    using Cons.prems(1) by (intro Cons.IH) simp_all
  then show ?case
    using Cons.prems(2) by (simp add: or_zero_Some)
qed

lemma mset_createAggregateData:
  "mset (createAggregateData dss) =
     mset (map (\<lambda>(k, v). \<lparr>x = k, y = v\<rparr>) (buildDateMap dss))"
  by (simp add: createAggregateData_def mset_sort_with)

lemma set_createAggregateData:
  "set (createAggregateData dss) = (\<lambda>(k, v). \<lparr>x = k, y = v\<rparr>) ` set (buildDateMap dss)"
  using mset_eq_setD[OF mset_createAggregateData] by simp

lemma keys_createAggregateData_mset:
  "mset (map x (createAggregateData dss)) = mset (map fst (buildDateMap dss))"
proof -
  have l: "map x (map (\<lambda>(k, v). \<lparr>x = k, y = v\<rparr>) (buildDateMap dss)) = map fst (buildDateMap dss)"
    by (simp add: case_prod_beta)
  have "mset (map x (createAggregateData dss)) = image_mset x (mset (createAggregateData dss))"
    by (rule mset_map)
  also have "\<dots> = image_mset x (mset (map (\<lambda>(k, v). \<lparr>x = k, y = v\<rparr>) (buildDateMap dss)))"
    by (simp only: mset_createAggregateData)
  also have "\<dots> = mset (map x (map (\<lambda>(k, v). \<lparr>x = k, y = v\<rparr>) (buildDateMap dss)))"
    by (rule mset_map[symmetric])
  finally show ?thesis unfolding l .
qed

lemma keys_createAggregateData:
  "set (map x (createAggregateData dss)) = (\<Union>ds \<in> set dss. x ` set (data ds))"
  using mset_eq_setD[OF keys_createAggregateData_mset] keys_buildDateMap[of dss]
  by simp

lemma value_createAggregateData:
  assumes "q \<in> set (createAggregateData dss)"
  shows "map_of (buildDateMap dss) (x q) = Some (y q)"
proof -
  obtain k v where kv: "(k, v) \<in> set (buildDateMap dss)" and q: "q = \<lparr>x = k, y = v\<rparr>"
    using assms unfolding set_createAggregateData by auto
  have "map_of (buildDateMap dss) k = Some v"
    using kv distinct_buildDateMap by simp
  then show ?thesis by (simp add: q)
qed

text \<open>
  C2. The aggregate series has one point for each date key that occurs in some series,
  and no other point. The value of the point is what the script reaches by adding, to 0
  and in the order in which it meets them, the normalized values that the series with
  a point on the key have there (a series without such a point adds nothing); every
  addition reads the sum so far through \<^verbatim>\<open>|| 0\<close>. Where all normalized values are finite,
  as the values from 0 to 100 are, that is their sum in double arithmetic, taken from
  left to right. The points are in the order of their time values as \<^verbatim>\<open>Date\<close> reads
  them, which is the chronological order; the strings are not compared.
\<close>

theorem aggregate_sums_by_date:
  assumes valid: "\<forall>ds \<in> set dss. \<forall>p \<in> set (data ds). new_Date (x p) \<noteq> Invalid_Date"
  shows "distinct (map x (createAggregateData dss)) \<and>
         set (map x (createAggregateData dss)) = (\<Union>ds \<in> set dss. x ` set (data ds)) \<and>
         (\<forall>q \<in> set (createAggregateData dss).
            y q = foldl (\<lambda>s v. Number_add (or_zero (Some s)) v) (Finite 0)
                    (map y (filter (\<lambda>p. x p = x q)
                       (concat (map data (filter (\<lambda>ds. x q \<in> x ` set (data ds)) dss)))))) \<and>
         ((\<forall>ds \<in> set dss. \<forall>p \<in> set (data ds). \<exists>r. y p = Finite r) \<longrightarrow>
          (\<forall>q \<in> set (createAggregateData dss).
            y q = foldl Number_add (Finite 0)
                    (map y (filter (\<lambda>p. x p = x q)
                       (concat (map data (filter (\<lambda>ds. x q \<in> x ` set (data ds)) dss))))))) \<and>
         sorted_wrt chronological (createAggregateData dss)"
proof -
  have d: "distinct (map x (createAggregateData dss))"
    using mset_eq_imp_distinct_iff[OF keys_createAggregateData_mset] distinct_buildDateMap
    by blast
  have k: "set (map x (createAggregateData dss)) = (\<Union>ds \<in> set dss. x ` set (data ds))"
    by (rule keys_createAggregateData)
  have v: "y q = foldl (\<lambda>s v. Number_add (or_zero (Some s)) v) (Finite 0)
                   (map y (filter (\<lambda>p. x p = x q)
                      (concat (map data (filter (\<lambda>ds. x q \<in> x ` set (data ds)) dss)))))"
    if "q \<in> set (createAggregateData dss)" for q
    using value_createAggregateData[OF that]
    unfolding map_of_buildDateMap filter_series_with_key
    by (simp split: if_splits)
  have w: "y q = foldl Number_add (Finite 0)
                   (map y (filter (\<lambda>p. x p = x q)
                      (concat (map data (filter (\<lambda>ds. x q \<in> x ` set (data ds)) dss)))))"
    if q: "q \<in> set (createAggregateData dss)"
      and fin: "\<forall>ds \<in> set dss. \<forall>p \<in> set (data ds). \<exists>r. y p = Finite r" for q
  proof -
    have "\<forall>v \<in> set (map y (filter (\<lambda>p. x p = x q) (concat (map data dss)))). \<exists>r. v = Finite r"
      using fin by auto
    then have "foldl (\<lambda>s v. Number_add (or_zero (Some s)) v) (Finite 0)
        (map y (filter (\<lambda>p. x p = x q) (concat (map data dss)))) =
      foldl Number_add (Finite 0) (map y (filter (\<lambda>p. x p = x q) (concat (map data dss))))"
      by (intro foldl_finite) simp_all
    then show ?thesis
      using v[OF q] unfolding filter_series_with_key by simp
  qed
  have ok: "new_Date (x a) \<noteq> Invalid_Date"
    if "a \<in> set (map (\<lambda>(k, v). \<lparr>x = k, y = v\<rparr>) (buildDateMap dss))" for a
  proof -
    have "x a \<in> fst ` set (buildDateMap dss)"
      using that by force
    then show ?thesis
      unfolding keys_buildDateMap using valid by auto
  qed
  have s: "sorted_wrt chronological (createAggregateData dss)"
    unfolding createAggregateData_def Let_def
    by (rule sorted_sort_with_compareDates) (rule ok)
  show ?thesis using d k v w s by blast
qed

lemma normalized_BA:
  "normalizeAndFormatData [seriesB, seriesA] =
     [\<lparr>label = ''Issues'', color = None,
       data = [\<lparr>x = ''2024-02-29'', y = Finite 0, originalValue = 4\<rparr>,
               \<lparr>x = ''2023-01-01'', y = Finite 100, originalValue = 8\<rparr>,
               \<lparr>x = ''2023-06-01'', y = Finite 25, originalValue = 5\<rparr>]\<rparr>,
      \<lparr>label = ''Commits'', color = None,
       data = [\<lparr>x = ''2023-01-01'', y = Finite 0, originalValue = 10\<rparr>,
               \<lparr>x = ''2023-06-01'', y = Finite 100, originalValue = 30\<rparr>,
               \<lparr>x = ''2023-12-01'', y = Finite 50, originalValue = 20\<rparr>]\<rparr>]"
  by (simp add: normalizeAndFormatData_def normalizeDataset_def normalizePoint_def
      Math_min_def Math_max_def seriesA_def seriesB_def number_eval)

lemma dateMap_BA:
  "buildDateMap (normalizeAndFormatData [seriesB, seriesA]) =
     [(''2024-02-29'', Finite 0), (''2023-01-01'', Finite 100), (''2023-06-01'', Finite 125),
      (''2023-12-01'', Finite 50)]"
  unfolding normalized_BA
  by (simp add: buildDateMap_def addPoint_def or_zero_def number_eval)

lemma aggregate_BA:
  "createAggregateData (normalizeAndFormatData [seriesB, seriesA]) =
     [\<lparr>x = ''2023-01-01'', y = Finite 100\<rparr>, \<lparr>x = ''2023-06-01'', y = Finite 125\<rparr>,
      \<lparr>x = ''2023-12-01'', y = Finite 50\<rparr>, \<lparr>x = ''2024-02-29'', y = Finite 0\<rparr>]"
  unfolding createAggregateData_def dateMap_BA
  by (simp add: sort_with_def compareDates_def date_eval)

theorem aggregate_sums_by_date_witness:
  "map (\<lambda>ds. map (\<lambda>p. new_Date (x p)) (data ds)) (normalizeAndFormatData [seriesB, seriesA]) =
     [[Date_UTC 2024 1 29, Date_UTC 2023 0 1, Date_UTC 2023 5 1],
      [Date_UTC 2023 0 1, Date_UTC 2023 5 1, Date_UTC 2023 11 1]] \<and>
   map (\<lambda>ds. map y (data ds)) (normalizeAndFormatData [seriesB, seriesA]) =
     [[Finite 0, Finite 100, Finite 25], [Finite 0, Finite 100, Finite 50]] \<and>
   createAggregateData (normalizeAndFormatData [seriesB, seriesA]) =
     [\<lparr>x = ''2023-01-01'', y = Finite 100\<rparr>, \<lparr>x = ''2023-06-01'', y = Finite 125\<rparr>,
      \<lparr>x = ''2023-12-01'', y = Finite 50\<rparr>, \<lparr>x = ''2024-02-29'', y = Finite 0\<rparr>] \<and>
   Number_add (Number_add (Finite 0) (Finite 25)) (Finite 100) = Finite 125 \<and>
   sorted_wrt chronological (createAggregateData (normalizeAndFormatData [seriesB, seriesA]))"
proof -
  have dates: "map (\<lambda>ds. map (\<lambda>p. new_Date (x p)) (data ds))
      (normalizeAndFormatData [seriesB, seriesA]) =
     [[Date_UTC 2024 1 29, Date_UTC 2023 0 1, Date_UTC 2023 5 1],
      [Date_UTC 2023 0 1, Date_UTC 2023 5 1, Date_UTC 2023 11 1]]"
    unfolding normalized_BA by (simp add: date_eval)
  have vals: "map (\<lambda>ds. map y (data ds)) (normalizeAndFormatData [seriesB, seriesA]) =
     [[Finite 0, Finite 100, Finite 25], [Finite 0, Finite 100, Finite 50]]"
    unfolding normalized_BA by simp
  have valid: "\<forall>ds \<in> set (normalizeAndFormatData [seriesB, seriesA]).
      \<forall>p \<in> set (data ds). new_Date (x p) \<noteq> Invalid_Date"
    unfolding normalized_BA by (simp add: date_eval)
  have fin: "\<forall>ds \<in> set (normalizeAndFormatData [seriesB, seriesA]).
      \<forall>p \<in> set (data ds). \<exists>r. y p = Finite r"
    unfolding normalized_BA by simp
  note r = aggregate_sums_by_date[OF valid]
  have q: "\<lparr>x = ''2023-06-01'', y = Finite 125\<rparr> \<in>
      set (createAggregateData (normalizeAndFormatData [seriesB, seriesA]))"
    unfolding aggregate_BA by simp
  have "y \<lparr>x = ''2023-06-01'', y = Finite 125\<rparr> =
      foldl Number_add (Finite 0)
        (map y (filter (\<lambda>p. x p = x \<lparr>x = ''2023-06-01'', y = Finite 125\<rparr>)
           (concat (map data (filter (\<lambda>ds. x \<lparr>x = ''2023-06-01'', y = Finite 125\<rparr> \<in> x ` set (data ds))
              (normalizeAndFormatData [seriesB, seriesA]))))))"
    using r fin q by blast
  then have s: "Number_add (Number_add (Finite 0) (Finite 25)) (Finite 100) = Finite 125"
    unfolding normalized_BA by simp
  have "sorted_wrt chronological (createAggregateData (normalizeAndFormatData [seriesB, seriesA]))"
    using r by blast
  then show ?thesis using dates vals aggregate_BA s by simp
qed

lemma valueAt_createAggregateData:
  "valueAt k (createAggregateData dss) = map_of (buildDateMap dss) k"
proof -
  let ?out = "map (\<lambda>p. (x p, y p)) (createAggregateData dss)"
  have fst_out: "map fst ?out = map x (createAggregateData dss)"
    by simp
  have d1: "distinct (map fst ?out)"
    unfolding fst_out
    using mset_eq_imp_distinct_iff[OF keys_createAggregateData_mset] distinct_buildDateMap
    by blast
  have "set ?out = (\<lambda>p. (x p, y p)) ` (\<lambda>(k, v). \<lparr>x = k, y = v\<rparr>) ` set (buildDateMap dss)"
    by (simp add: set_createAggregateData)
  also have "\<dots> = set (buildDateMap dss)"
    by (force simp: image_iff)
  finally have "map_of ?out = map_of (buildDateMap dss)"
    using map_of_inject_set[OF d1 distinct_buildDateMap] by simp
  then show ?thesis by (simp add: valueAt_def)
qed

lemma valueAt_total:
  "valueAt k (createAggregateData dss) =
     (if k \<in> (\<Union>ds \<in> set dss. x ` set (data ds))
      then Some (foldl (\<lambda>s v. Number_add (or_zero (Some s)) v) (Finite 0)
                  (map y (filter (\<lambda>p. x p = k) (concat (map data dss)))))
      else None)"
  by (simp only: valueAt_createAggregateData map_of_buildDateMap)

lemma filter_single:
  "distinct (map x ps) \<Longrightarrow> k \<in> x ` set ps \<Longrightarrow>
     \<exists>p \<in> set ps. filter (\<lambda>q. x q = k) ps = [p]"
proof (induction ps)
  case Nil
  then show ?case by simp
next
  case (Cons a ps)
  show ?case
  proof (cases "x a = k")
    case True
    then have "k \<notin> x ` set ps" using Cons.prems(1) by auto
    then show ?thesis using True by (simp add: filter_no_match)
  next
    case False
    then show ?thesis using Cons by auto
  qed
qed

lemma normalized_A:
  "normalizeDataset seriesA =
     \<lparr>label = ''Commits'', color = None,
      data = [\<lparr>x = ''2023-01-01'', y = Finite 0, originalValue = 10\<rparr>,
              \<lparr>x = ''2023-06-01'', y = Finite 100, originalValue = 30\<rparr>,
              \<lparr>x = ''2023-12-01'', y = Finite 50, originalValue = 20\<rparr>]\<rparr>"
  by (simp add: normalizeDataset_def normalizePoint_def Math_min_def Math_max_def seriesA_def
      number_eval)

lemma normalized_B:
  "normalizeDataset seriesB =
     \<lparr>label = ''Issues'', color = None,
      data = [\<lparr>x = ''2024-02-29'', y = Finite 0, originalValue = 4\<rparr>,
              \<lparr>x = ''2023-01-01'', y = Finite 100, originalValue = 8\<rparr>,
              \<lparr>x = ''2023-06-01'', y = Finite 25, originalValue = 5\<rparr>]\<rparr>"
  by (simp add: normalizeDataset_def normalizePoint_def Math_min_def Math_max_def seriesB_def
      number_eval)

lemma normalized_Flat:
  "normalizeDataset seriesFlat =
     \<lparr>label = ''Releases'', color = None,
      data = [\<lparr>x = ''2023-01-01'', y = Finite 50, originalValue = 7\<rparr>,
              \<lparr>x = ''2023-06-01'', y = Finite 50, originalValue = 7\<rparr>]\<rparr>"
  by (simp add: normalizeDataset_def normalizePoint_def Math_min_def Math_max_def
      seriesFlat_def)

text \<open>
  The normalized values of a series with the values 0, 100 and \<open>100 \<sqdot> 2\<^sup>5\<^sup>4\<close>: every step of
  the scaling is exact, and the value 100 goes to \<open>100 / 2\<^sup>5\<^sup>4\<close>.
\<close>

lemma scaled_tall:
  "Number_subtract (Finite (100 * 2 ^ 54)) (Finite 0) = Finite (100 * 2 ^ 54)"
  "Number_multiply (Number_divide (Finite 0) (Finite (100 * 2 ^ 54))) (Finite 100) = Finite 0"
  "Number_multiply (Number_divide (Finite 100) (Finite (100 * 2 ^ 54))) (Finite 100) =
     Finite (100 / 2 ^ 54)"
  "Number_multiply (Number_divide (Finite (100 * 2 ^ 54)) (Finite (100 * 2 ^ 54))) (Finite 100) =
     Finite 100"
proof -
  have "toDouble (of_int 25 * 2 powi 56) = Finite (of_int 25 * 2 powi 56)"
    by (rule toDouble_exact) (simp_all add: min_exponent_def max_exponent_def)
  then show "Number_subtract (Finite (100 * 2 ^ 54)) (Finite 0) = Finite (100 * 2 ^ 54)"
    by simp
  show "Number_multiply (Number_divide (Finite 0) (Finite (100 * 2 ^ 54))) (Finite 100) = Finite 0"
    by simp
  have "toDouble (of_int 1 * 2 powi (- 54)) = Finite (of_int 1 * 2 powi (- 54))"
    by (rule toDouble_exact) (simp_all add: min_exponent_def max_exponent_def)
  then have q: "Number_divide (Finite 100) (Finite (100 * 2 ^ 54)) = Finite (1 / 2 ^ 54)"
    by simp
  have "toDouble (of_int 25 * 2 powi (- 52)) = Finite (of_int 25 * 2 powi (- 52))"
    by (rule toDouble_exact) (simp_all add: min_exponent_def max_exponent_def)
  then have "Number_multiply (Finite (1 / 2 ^ 54)) (Finite 100) = Finite (100 / 2 ^ 54)"
    by simp
  then show "Number_multiply (Number_divide (Finite 100) (Finite (100 * 2 ^ 54))) (Finite 100) =
     Finite (100 / 2 ^ 54)"
    unfolding q .
  show "Number_multiply (Number_divide (Finite (100 * 2 ^ 54)) (Finite (100 * 2 ^ 54)))
      (Finite 100) = Finite 100"
    by (simp add: toDouble_100)
qed

lemma normalized_Stars:
  "normalizeDataset seriesStars =
     \<lparr>label = ''Stars'', color = None,
      data = [\<lparr>x = ''2023-01-01'', y = Finite 0, originalValue = 0\<rparr>,
              \<lparr>x = ''2023-06-01'', y = Finite (100 / 2 ^ 54), originalValue = 100\<rparr>,
              \<lparr>x = ''2023-12-01'', y = Finite 100, originalValue = 100 * 2 ^ 54\<rparr>]\<rparr>"
proof -
  have mn: "Math_min 0 [100, 100 * 2 ^ 54] = (0::real)"
    and mx: "Math_max 0 [100, 100 * 2 ^ 54] = (100 * 2 ^ 54 :: real)"
    by (simp_all add: Math_min_def Math_max_def)
  have nz: "Finite (100 * 2 ^ 54) \<noteq> Finite 0"
    by simp
  have sub: "Number_subtract (Finite 0) (Finite 0) = Finite 0"
    "Number_subtract (Finite 100) (Finite 0) = Finite 100"
    by (simp_all add: toDouble_100)
  show ?thesis
    unfolding normalizeDataset_def seriesStars_def
    by (simp only: Dataset.simps DataPoint.simps list.case Let_def list.map list.sel mn mx
        scaled_tall normalizePoint_def nz if_False sub)
qed

lemma normalized_Views:
  "normalizeDataset seriesViews =
     \<lparr>label = ''Views'', color = None,
      data = [\<lparr>x = ''2023-01-01'', y = Finite 0, originalValue = 0\<rparr>,
              \<lparr>x = ''2023-06-01'', y = Finite (100 / 2 ^ 54), originalValue = 100\<rparr>,
              \<lparr>x = ''2023-12-01'', y = Finite 100, originalValue = 100 * 2 ^ 54\<rparr>]\<rparr>"
proof -
  have mn: "Math_min 0 [100, 100 * 2 ^ 54] = (0::real)"
    and mx: "Math_max 0 [100, 100 * 2 ^ 54] = (100 * 2 ^ 54 :: real)"
    by (simp_all add: Math_min_def Math_max_def)
  have nz: "Finite (100 * 2 ^ 54) \<noteq> Finite 0"
    by simp
  have sub: "Number_subtract (Finite 0) (Finite 0) = Finite 0"
    "Number_subtract (Finite 100) (Finite 0) = Finite 100"
    by (simp_all add: toDouble_100)
  show ?thesis
    unfolding normalizeDataset_def seriesViews_def
    by (simp only: Dataset.simps DataPoint.simps list.case Let_def list.map list.sel mn mx
        scaled_tall normalizePoint_def nz if_False sub)
qed

text \<open>
  Two additions that round: 100 and \<open>100 / 2\<^sup>5\<^sup>4\<close> give 100, the small term being less than
  half of the distance \<open>1 / 2\<^sup>4\<^sup>6\<close> between 100 and the next double; 100 and \<open>100 / 2\<^sup>5\<^sup>3\<close>
  give that next double.
\<close>

lemma add_small: "Number_add (Finite 100) (Finite (100 / 2 ^ 54)) = Finite 100"
proof -
  have "toDouble (100 + 100 / 2 ^ 54) = Finite (of_int (100 * 2 ^ 46) * 2 powi (6 - 52))"
    by (rule toDouble_eval) (simp_all add: min_exponent_def max_exponent_def round_even_def)
  then show ?thesis by simp
qed

lemma add_twice_small:
  "Number_add (Finite (100 / 2 ^ 54)) (Finite (100 / 2 ^ 54)) = Finite (100 / 2 ^ 53)"
proof -
  have "toDouble (of_int 25 * 2 powi (- 51)) = Finite (of_int 25 * 2 powi (- 51))"
    by (rule toDouble_exact) (simp_all add: min_exponent_def max_exponent_def)
  then show ?thesis by simp
qed

lemma add_large: "Number_add (Finite (100 / 2 ^ 53)) (Finite 100) = Finite (100 + 1 / 2 ^ 46)"
proof -
  have "toDouble (100 / 2 ^ 53 + 100) = Finite (of_int (100 * 2 ^ 46 + 1) * 2 powi (6 - 52))"
    by (rule toDouble_eval) (simp_all add: min_exponent_def max_exponent_def round_even_def)
  then show ?thesis by simp
qed

lemma add_zero_small: "Number_add (Finite 0) (Finite (100 / 2 ^ 54)) = Finite (100 / 2 ^ 54)"
proof -
  have "toDouble (of_int 25 * 2 powi (- 52)) = Finite (of_int 25 * 2 powi (- 52))"
    by (rule toDouble_exact) (simp_all add: min_exponent_def max_exponent_def)
  then show ?thesis by simp
qed

text \<open>
  C9 as stated fails: the value on a date depends on the order of the series. On
  2023-06-01 the first series below has the normalized value 100 and the other two
  have \<open>100 / 2\<^sup>5\<^sup>4\<close>. Added in this order the sum stays 100 twice; with the two small
  values first, their sum \<open>100 / 2\<^sup>5\<^sup>3\<close> is large enough to move 100 to the next double.
\<close>

theorem aggregate_order_dependent:
  "map y (data (normalizeDataset seriesA)) = [Finite 0, Finite 100, Finite 50] \<and>
   map y (data (normalizeDataset seriesStars)) = [Finite 0, Finite (100 / 2 ^ 54), Finite 100] \<and>
   map y (data (normalizeDataset seriesViews)) = [Finite 0, Finite (100 / 2 ^ 54), Finite 100] \<and>
   valueAt ''2023-06-01''
     (createAggregateData (normalizeAndFormatData [seriesA, seriesStars, seriesViews])) =
     Some (Finite 100) \<and>
   valueAt ''2023-06-01''
     (createAggregateData (normalizeAndFormatData [seriesStars, seriesViews, seriesA])) =
     Some (Finite (100 + 1 / 2 ^ 46))"
proof -
  let ?step = "\<lambda>s v. Number_add (or_zero (Some s)) v"
  have mem: "''2023-06-01'' \<in>
      (\<Union>ds \<in> set (normalizeAndFormatData [seriesA, seriesStars, seriesViews]). x ` set (data ds))"
    "''2023-06-01'' \<in>
      (\<Union>ds \<in> set (normalizeAndFormatData [seriesStars, seriesViews, seriesA]). x ` set (data ds))"
    by (simp_all add: normalizeAndFormatData_def normalized_A)
  have v1: "map y (filter (\<lambda>p. x p = ''2023-06-01'')
      (concat (map data (normalizeAndFormatData [seriesA, seriesStars, seriesViews])))) =
      [Finite 100, Finite (100 / 2 ^ 54), Finite (100 / 2 ^ 54)]"
    by (simp add: normalizeAndFormatData_def normalized_A normalized_Stars normalized_Views)
  have v2: "map y (filter (\<lambda>p. x p = ''2023-06-01'')
      (concat (map data (normalizeAndFormatData [seriesStars, seriesViews, seriesA])))) =
      [Finite (100 / 2 ^ 54), Finite (100 / 2 ^ 54), Finite 100]"
    by (simp add: normalizeAndFormatData_def normalized_A normalized_Stars normalized_Views)
  have s0: "Number_add (Finite 0) (Finite 100) = Finite 100"
    by (simp add: toDouble_100)
  have "valueAt ''2023-06-01''
      (createAggregateData (normalizeAndFormatData [seriesA, seriesStars, seriesViews])) =
      Some (foldl ?step (Finite 0) [Finite 100, Finite (100 / 2 ^ 54), Finite (100 / 2 ^ 54)])"
    by (simp only: valueAt_total mem if_True v1)
  also have "\<dots> = Some (Finite 100)"
    by (simp only: foldl.simps or_zero_Finite s0 add_small)
  finally have a: "valueAt ''2023-06-01''
      (createAggregateData (normalizeAndFormatData [seriesA, seriesStars, seriesViews])) =
      Some (Finite 100)" .
  have "valueAt ''2023-06-01''
      (createAggregateData (normalizeAndFormatData [seriesStars, seriesViews, seriesA])) =
      Some (foldl ?step (Finite 0) [Finite (100 / 2 ^ 54), Finite (100 / 2 ^ 54), Finite 100])"
    by (simp only: valueAt_total mem if_True v2)
  also have "\<dots> = Some (Finite (100 + 1 / 2 ^ 46))"
    by (simp only: foldl.simps or_zero_Finite add_zero_small add_twice_small add_large)
  finally have b: "valueAt ''2023-06-01''
      (createAggregateData (normalizeAndFormatData [seriesStars, seriesViews, seriesA])) =
      Some (Finite (100 + 1 / 2 ^ 46))" .
  have "map y (data (normalizeDataset seriesA)) = [Finite 0, Finite 100, Finite 50]"
    and "map y (data (normalizeDataset seriesStars)) =
      [Finite 0, Finite (100 / 2 ^ 54), Finite 100]"
    and "map y (data (normalizeDataset seriesViews)) =
      [Finite 0, Finite (100 / 2 ^ 54), Finite 100]"
    by (simp_all add: normalized_A normalized_Stars normalized_Views)
  then show ?thesis using a b by blast
qed

lemma value_two:
  assumes k: "k \<in> x ` set (data A)" "k \<in> x ` set (data B)"
    and pa: "filter (\<lambda>q. x q = k) (data A) = [pa]"
    and pb: "filter (\<lambda>q. x q = k) (data B) = [pb]"
    and a: "y pa = Finite a" "toDouble a = Finite a"
    and b: "y pb = Finite b"
  shows "valueAt k (createAggregateData [A, B]) = Some (toDouble (a + b))"
proof -
  have mem: "k \<in> (\<Union>ds \<in> set [A, B]. x ` set (data ds))"
    using k by simp
  have vals: "map y (filter (\<lambda>p. x p = k) (concat (map data [A, B]))) = [Finite a, Finite b]"
    by (simp add: pa pb a(1) b)
  show ?thesis
    by (simp only: valueAt_total mem if_True vals foldl.simps or_zero_Finite Number_add.simps
        add_0 a(2))
qed


lemma value_one:
  assumes k: "k \<in> x ` set (data C)"
    and pc: "filter (\<lambda>q. x q = k) (data C) = [pc]"
    and c: "y pc = Finite c" "toDouble c = Finite c"
  shows "valueAt k (createAggregateData [C]) = Some (Finite c)"
proof -
  have mem: "k \<in> (\<Union>ds \<in> set [C]. x ` set (data ds))"
    using k by simp
  have vals: "map y (filter (\<lambda>p. x p = k) (concat (map data [C]))) = [Finite c]"
    by (simp add: pc c(1))
  show ?thesis
    by (simp only: valueAt_total mem if_True vals foldl.simps or_zero_Finite Number_add.simps
        add_0 c(2))
qed

lemma value_three:
  assumes k: "k \<in> x ` set (data A)"
    and pa: "filter (\<lambda>q. x q = k) (data A) = [pa]"
    and pb: "filter (\<lambda>q. x q = k) (data B) = [pb]"
    and pc: "filter (\<lambda>q. x q = k) (data C) = [pc]"
    and a: "y pa = Finite a" "toDouble a = Finite a"
    and b: "y pb = Finite b"
    and c: "y pc = Finite c"
  shows "valueAt k (createAggregateData [A, B, C]) =
    Some (Number_add (toDouble (a + b)) (Finite c))"
proof -
  have mem: "k \<in> (\<Union>ds \<in> set [A, B, C]. x ` set (data ds))"
    using k by simp
  have vals: "map y (filter (\<lambda>p. x p = k) (concat (map data [A, B, C]))) =
      [Finite a, Finite b, Finite c]"
    by (simp add: pa pb pc a(1) b c)
  show ?thesis
    by (simp only: valueAt_total mem if_True vals foldl.simps or_zero_Finite Number_add.simps
        add_0 a(2) or_zero_toDouble)
qed

text \<open>
  C9, amended. Three series of finite doubles, each with one point on the date \<open>k\<close>:
  the aggregate of \<open>A\<close> and \<open>B\<close> plus the aggregate of \<open>C\<close>, added as doubles, is the
  aggregate of \<open>A\<close>, \<open>B\<close> and \<open>C\<close> in this order, on \<open>k\<close>; the aggregate of two series
  does not depend on their order; and in whatever order the three series come, the
  aggregate has the same dates. The value on a date is the sum from left to right in
  the order of the series: with three or more series it can depend on that order.
\<close>

theorem aggregate_regrouping:
  assumes k: "k \<in> x ` set (data A)" "k \<in> x ` set (data B)" "k \<in> x ` set (data C)"
    and d: "distinct (map x (data A))" "distinct (map x (data B))" "distinct (map x (data C))"
    and f: "\<forall>p \<in> set (data A) \<union> set (data B) \<union> set (data C). \<exists>r. y p = Finite r \<and> is_double r"
  shows "(\<exists>u v. valueAt k (createAggregateData [A, B]) = Some u \<and>
            valueAt k (createAggregateData [C]) = Some v \<and>
            valueAt k (createAggregateData [A, B, C]) = Some (Number_add u v)) \<and>
         valueAt k (createAggregateData [B, A]) = valueAt k (createAggregateData [A, B]) \<and>
         (\<forall>dss. mset dss = mset [A, B, C] \<longrightarrow>
            set (map x (createAggregateData dss)) = set (map x (createAggregateData [A, B, C])))"
proof -
  obtain pa where pa: "pa \<in> set (data A)" "filter (\<lambda>q. x q = k) (data A) = [pa]"
    using filter_single[OF d(1) k(1)] by blast
  obtain pb where pb: "pb \<in> set (data B)" "filter (\<lambda>q. x q = k) (data B) = [pb]"
    using filter_single[OF d(2) k(2)] by blast
  obtain pc where pc: "pc \<in> set (data C)" "filter (\<lambda>q. x q = k) (data C) = [pc]"
    using filter_single[OF d(3) k(3)] by blast
  have "\<exists>r. y pa = Finite r \<and> is_double r" using f pa(1) by simp
  then obtain a where a: "y pa = Finite a" "toDouble a = Finite a"
    unfolding is_double_def by blast
  have "\<exists>r. y pb = Finite r \<and> is_double r" using f pb(1) by simp
  then obtain b where b: "y pb = Finite b" "toDouble b = Finite b"
    unfolding is_double_def by blast
  have "\<exists>r. y pc = Finite r \<and> is_double r" using f pc(1) by simp
  then obtain c where c: "y pc = Finite c" "toDouble c = Finite c"
    unfolding is_double_def by blast
  have ab: "valueAt k (createAggregateData [A, B]) = Some (toDouble (a + b))"
    using k(1,2) pa(2) pb(2) a b(1) by (rule value_two)
  have ba: "valueAt k (createAggregateData [B, A]) = Some (toDouble (b + a))"
    using k(2,1) pb(2) pa(2) b a(1) by (rule value_two)
  have cc: "valueAt k (createAggregateData [C]) = Some (Finite c)"
    using k(3) pc(2) c by (rule value_one)
  have abc: "valueAt k (createAggregateData [A, B, C]) =
      Some (Number_add (toDouble (a + b)) (Finite c))"
    using k(1) pa(2) pb(2) pc(2) a b(1) c(1) by (rule value_three)
  have keys: "set (map x (createAggregateData dss)) = set (map x (createAggregateData [A, B, C]))"
    if "mset dss = mset [A, B, C]" for dss
  proof -
    have "set dss = set [A, B, C]" using that by (rule mset_eq_setD)
    then show ?thesis by (simp only: keys_createAggregateData)
  qed
  have comm: "b + a = a + b" by simp
  have first: "\<exists>u v. valueAt k (createAggregateData [A, B]) = Some u \<and>
            valueAt k (createAggregateData [C]) = Some v \<and>
            valueAt k (createAggregateData [A, B, C]) = Some (Number_add u v)"
    using ab cc abc by blast
  have second: "valueAt k (createAggregateData [B, A]) = valueAt k (createAggregateData [A, B])"
    unfolding ab ba comm ..
  show ?thesis
    using first second keys by blast
qed

theorem aggregate_regrouping_witness:
  "x ` set (data (normalizeDataset seriesA)) = {''2023-01-01'', ''2023-06-01'', ''2023-12-01''} \<and>
   x ` set (data (normalizeDataset seriesB)) = {''2024-02-29'', ''2023-01-01'', ''2023-06-01''} \<and>
   x ` set (data (normalizeDataset seriesFlat)) = {''2023-01-01'', ''2023-06-01''} \<and>
   valueAt ''2023-06-01''
     (createAggregateData [normalizeDataset seriesA, normalizeDataset seriesB]) =
     Some (Finite 125) \<and>
   valueAt ''2023-06-01''
     (createAggregateData [normalizeDataset seriesB, normalizeDataset seriesA]) =
     Some (Finite 125) \<and>
   valueAt ''2023-06-01'' (createAggregateData [normalizeDataset seriesFlat]) =
     Some (Finite 50) \<and>
   valueAt ''2023-06-01'' (createAggregateData
     [normalizeDataset seriesA, normalizeDataset seriesB, normalizeDataset seriesFlat]) =
     Some (Finite 175) \<and>
   set (map x (createAggregateData
     [normalizeDataset seriesFlat, normalizeDataset seriesB, normalizeDataset seriesA])) =
     {''2023-01-01'', ''2023-06-01'', ''2023-12-01'', ''2024-02-29''}"
proof -
  let ?A = "normalizeDataset seriesA" and ?B = "normalizeDataset seriesB"
    and ?C = "normalizeDataset seriesFlat"
  have kA: "x ` set (data ?A) = {''2023-01-01'', ''2023-06-01'', ''2023-12-01''}"
    and kB: "x ` set (data ?B) = {''2024-02-29'', ''2023-01-01'', ''2023-06-01''}"
    and kC: "x ` set (data ?C) = {''2023-01-01'', ''2023-06-01''}"
    unfolding normalized_A normalized_B normalized_Flat by simp_all
  have k: "''2023-06-01'' \<in> x ` set (data ?A)" "''2023-06-01'' \<in> x ` set (data ?B)"
    "''2023-06-01'' \<in> x ` set (data ?C)"
    unfolding kA kB kC by simp_all
  have d: "distinct (map x (data ?A))" "distinct (map x (data ?B))" "distinct (map x (data ?C))"
    unfolding normalized_A normalized_B normalized_Flat by simp_all
  have f: "\<forall>p \<in> set (data ?A) \<union> set (data ?B) \<union> set (data ?C). \<exists>r. y p = Finite r \<and> is_double r"
    unfolding normalized_A normalized_B normalized_Flat
    by (simp add: is_double_numeral)
  note r = aggregate_regrouping[OF k d f]
  have ab: "valueAt ''2023-06-01'' (createAggregateData [?A, ?B]) = Some (Finite 125)"
    unfolding valueAt_total normalized_A normalized_B
    by (simp add: or_zero_Some number_eval)
  have cc: "valueAt ''2023-06-01'' (createAggregateData [?C]) = Some (Finite 50)"
    unfolding valueAt_total normalized_Flat
    by (simp add: number_eval)
  have "valueAt ''2023-06-01'' (createAggregateData [?A, ?B, ?C]) =
      Some (Number_add (Finite 125) (Finite 50))"
    using r ab cc by auto
  then have abc: "valueAt ''2023-06-01'' (createAggregateData [?A, ?B, ?C]) = Some (Finite 175)"
    by (simp add: number_eval)
  have ba: "valueAt ''2023-06-01'' (createAggregateData [?B, ?A]) = Some (Finite 125)"
    using r ab by simp
  have "mset [?C, ?B, ?A] = mset [?A, ?B, ?C]" by simp
  with r have "set (map x (createAggregateData [?C, ?B, ?A])) =
      set (map x (createAggregateData [?A, ?B, ?C]))"
    by blast
  then have keys: "set (map x (createAggregateData [?C, ?B, ?A])) =
      {''2023-01-01'', ''2023-06-01'', ''2023-12-01'', ''2024-02-29''}"
    unfolding keys_createAggregateData[of "[?A, ?B, ?C]"] using kA kB kC by auto
  show ?thesis using kA kB kC ab ba cc abc keys by simp
qed

section \<open>Properties of handling a filter change\<close>

lemma framed_refl: "framed st st"
  by (simp add: framed_def)

lemma framed_trans: "framed st st' \<Longrightarrow> framed st' st'' \<Longrightarrow> framed st st''"
  by (auto simp: framed_def)

lemma framed_extends: "bounded st \<Longrightarrow> framed st st' \<Longrightarrow> extends (heap st) (heap st')"
  unfolding bounded_def framed_def extends_def by (metis not_le)

lemma safe_succeed: "safe (succeed a)"
  by (simp add: safe_def succeed_def framed_refl)

lemma safe_throw: "safe (throw e)"
  by (simp add: safe_def throw_def framed_refl)

lemma safe_alloc: "safe (alloc ob)"
  by (simp add: safe_def alloc_def framed_def bounded_def)

lemma safe_andThen:
  assumes "safe m" "\<And>a. safe (f a)"
  shows "safe (andThen m f)"
  unfolding safe_def
proof (intro allI)
  fix st
  obtain r st' where m: "m st = (r, st')" by (cases "m st")
  have 1: "framed st st'" "bounded st \<longrightarrow> bounded st'"
    using assms(1) m unfolding safe_def by (metis snd_conv)+
  show "framed st (snd (andThen m f st)) \<and> (bounded st \<longrightarrow> bounded (snd (andThen m f st)))"
  proof (cases r)
    case (Inl e)
    then show ?thesis using 1 m by (simp add: andThen_def)
  next
    case (Inr a)
    have 2: "framed st' (snd (f a st'))" "bounded st' \<longrightarrow> bounded (snd (f a st'))"
      using assms(2)[of a] unfolding safe_def by blast+
    show ?thesis using 1 2 m Inr framed_trans by (auto simp: andThen_def)
  qed
qed

lemma safe_cases:
  assumes "\<And>st. \<exists>m'. safe m' \<and> m st = m' st"
  shows "safe m"
  unfolding safe_def using assms unfolding safe_def by metis

lemma safe_filterArray: "safe (filterArray cb arr)"
proof (rule safe_cases)
  fix st
  show "\<exists>m'. safe m' \<and> filterArray cb arr st = m' st"
    unfolding filterArray_def
    by (auto split: option.splits intro: safe_throw safe_alloc)
qed

lemma safe_filterStep: "safe (filterStep b cb arr)"
  by (simp add: filterStep_def safe_filterArray safe_succeed)

lemma safeD: "safe m \<Longrightarrow> framed st (snd (m st)) \<and> (bounded st \<longrightarrow> bounded (snd (m st)))"
  by (simp add: safe_def)

lemma safe_filterOne: "safe (filterOne tz sel r)"
  unfolding safe_def
proof (intro allI)
  fix st
  let ?goal = "framed st (snd (filterOne tz sel r st)) \<and>
     (bounded st \<longrightarrow> bounded (snd (filterOne tz sel r st)))"
  have thrown: ?goal if "filterOne tz sel r st = throw TypeError st"
    unfolding that using safeD[OF safe_throw] .
  show ?goal
  proof (cases "heap st r")
    case None
    then show ?thesis by (intro thrown) (simp add: filterOne_def)
  next
    case (Some ob)
    show ?thesis
    proof (cases ob)
      case (PointObj p)
      then show ?thesis using Some by (intro thrown) (simp add: filterOne_def)
    next
      case (ArrayObj rs)
      then show ?thesis using Some by (intro thrown) (simp add: filterOne_def)
    next
      case (SeriesObj lbl col d)
      let ?chain = "andThen (filterStep (selectedYear sel \<noteq> ''all'')
                     (yearCallback tz (selectedYear sel)) d) (\<lambda>filteredData.
          andThen (filterStep (selectedQuarter sel \<noteq> ''all'')
                     (quarterCallback tz (selectedQuarter sel)) filteredData) (\<lambda>filteredData.
          andThen (filterStep (selectedMonth sel \<noteq> ''all'')
                     (monthCallback tz (fst (monthPair (selectedMonth sel)))
                        (snd (monthPair (selectedMonth sel)))) filteredData) (\<lambda>filteredData.
          alloc (SeriesObj lbl col filteredData))))"
      have chain: "safe ?chain"
        by (intro safe_andThen safe_filterStep safe_alloc)
      have eq: "filterOne tz sel r st = ?chain st"
        using Some SeriesObj by (simp add: filterOne_def)
      show ?thesis
        unfolding eq by (rule safeD[OF chain])
    qed
  qed
qed

lemma safe_updateChart: "safe (updateChart i u)"
  unfolding safe_def updateChart_def
  by (auto simp: succeed_def throw_def framed_def bounded_def split: option.splits sum.splits)

lemma safe_forEachDataset: "safe (forEachDataset tz sel rs i fds)"
  by (induction rs arbitrary: i fds)
     (auto intro!: safe_succeed safe_andThen safe_filterOne safe_updateChart)

lemma safe_updateSummaryAndAggregate: "safe (updateSummaryAndAggregate fds)"
  unfolding safe_def updateSummaryAndAggregate_def
  by (auto simp: succeed_def throw_def framed_def bounded_def Let_def split: option.splits)

lemma safe_handleFilterChange: "safe (handleFilterChange tz sel)"
proof (rule safe_cases)
  fix st
  show "\<exists>m'. safe m' \<and> handleFilterChange tz sel st = m' st"
    unfolding handleFilterChange_def
    by (blast intro: safe_andThen safe_forEachDataset safe_updateSummaryAndAggregate)
qed

lemma returnsI:
  assumes "safe m" "bounded st" "m st = (Inr a, st')" "Q a st'"
  shows "returns m st Q"
  using safeD[OF assms(1), of st] assms(2-4) unfolding returns_def by auto

lemma returns_andThen:
  assumes "returns m st (\<lambda>a st'. returns (f a) st' Q)"
  shows "returns (andThen m f) st Q"
proof -
  obtain a st' where m: "m st = (Inr a, st')" "framed st st'" and f: "returns (f a) st' Q"
    using assms unfolding returns_def by blast
  obtain b st'' where fa: "f a st' = (Inr b, st'')" "framed st' st''" "bounded st''" "Q b st''"
    using f unfolding returns_def by blast
  have "andThen m f st = (Inr b, st'')"
    using m fa by (simp add: andThen_def)
  then show ?thesis
    unfolding returns_def using framed_trans[OF m(2) fa(2)] fa(3,4) by blast
qed

lemma returns_weaken:
  assumes "returns m st P" "\<And>a st'. framed st st' \<Longrightarrow> bounded st' \<Longrightarrow> P a st' \<Longrightarrow> Q a st'"
  shows "returns m st Q"
  using assms unfolding returns_def by blast

lemma those_map_mono:
  assumes "\<And>r v. f r = Some v \<Longrightarrow> g r = Some v" "those (map f rs) = Some vs"
  shows "those (map g rs) = Some vs"
  using assms(2)
proof (induction rs arbitrary: vs)
  case Nil
  then show ?case by simp
next
  case (Cons r rs)
  then obtain v vs' where v: "f r = Some v" and vs': "those (map f rs) = Some vs'"
    and eq: "vs = v # vs'"
    by (auto split: option.splits)
  have "g r = Some v" using assms(1) v by simp
  moreover have "those (map g rs) = Some vs'" using Cons.IH vs' by simp
  ultimately show ?case using eq by simp
qed

lemma readPoint_extends: "extends h h' \<Longrightarrow> readPoint h r = Some p \<Longrightarrow> readPoint h' r = Some p"
  unfolding extends_def readPoint_def by (auto split: option.splits obj.splits)

lemma arrayRefs_extends: "extends h h' \<Longrightarrow> arrayRefs h r = Some rs \<Longrightarrow> arrayRefs h' r = Some rs"
  unfolding extends_def arrayRefs_def by (auto split: option.splits obj.splits)

lemma readArray_extends:
  assumes "extends h h'" "readArray h r = Some ps"
  shows "readArray h' r = Some ps"
proof -
  obtain rs where rs: "arrayRefs h r = Some rs" and ps: "those (map (readPoint h) rs) = Some ps"
    using assms(2) by (auto simp: readArray_def split: option.splits)
  have "those (map (readPoint h') rs) = Some ps"
    using readPoint_extends[OF assms(1)] ps by (rule those_map_mono)
  then show ?thesis
    using arrayRefs_extends[OF assms(1) rs] by (simp add: readArray_def)
qed

lemma readSeries_extends:
  assumes "extends h h'" "readSeries h r = Some v"
  shows "readSeries h' r = Some v"
proof -
  obtain lbl col d ps where c: "h r = Some (SeriesObj lbl col d)"
    and ps: "readArray h d = Some ps" and v: "v = \<lparr>label = lbl, color = col, data = ps\<rparr>"
    using assms(2) by (auto simp: readSeries_def split: option.splits obj.splits)
  have "h' r = Some (SeriesObj lbl col d)"
    using assms(1) c by (simp add: extends_def)
  then show ?thesis
    using readArray_extends[OF assms(1) ps] v by (simp add: readSeries_def)
qed

lemma those_filter_zip:
  "those (map f rs) = Some ps \<Longrightarrow>
     those (map f (map fst (filter (\<lambda>(r, p). cb p) (zip rs ps)))) = Some (filter cb ps)"
proof (induction rs arbitrary: ps)
  case Nil
  then show ?case by simp
next
  case (Cons r rs)
  then obtain p ps' where p: "f r = Some p" and ps': "those (map f rs) = Some ps'"
    and eq: "ps = p # ps'"
    by (auto split: option.splits)
  show ?case
    using Cons.IH[OF ps'] p by (simp add: eq)
qed

lemma alloc_extends: "bounded st \<Longrightarrow> alloc ob st = (r, st') \<Longrightarrow> extends (heap st) (heap st')"
  by (auto simp: alloc_def bounded_def extends_def)

lemma filterArray_returns:
  assumes b: "bounded st" and rd: "readArray (heap st) arr = Some ps"
  shows "returns (filterArray cb arr) st (\<lambda>d st'. readArray (heap st') d = Some (filter cb ps))"
proof -
  obtain rs where rs: "arrayRefs (heap st) arr = Some rs"
    and ps: "those (map (readPoint (heap st)) rs) = Some ps"
    using rd by (auto simp: readArray_def split: option.splits)
  let ?kept = "map fst (filter (\<lambda>(r, p). cb p) (zip rs ps))"
  let ?st' = "st\<lparr>heap := (heap st)(fresh st \<mapsto> ArrayObj ?kept), fresh := Suc (fresh st)\<rparr>"
  have run: "filterArray cb arr st = (Inr (fresh st), ?st')"
    using rs ps by (simp add: filterArray_def alloc_def)
  have ext: "extends (heap st) (heap ?st')"
    using b by (auto simp: bounded_def extends_def)
  have "those (map (readPoint (heap st)) ?kept) = Some (filter cb ps)"
    using ps by (rule those_filter_zip)
  then have "those (map (readPoint (heap ?st')) ?kept) = Some (filter cb ps)"
    using readPoint_extends[OF ext] by (rule those_map_mono[rotated])
  then have "readArray (heap ?st') (fresh st) = Some (filter cb ps)"
    by (simp add: readArray_def arrayRefs_def)
  then show ?thesis
    using safe_filterArray b run by (rule returnsI[rotated 3])
qed

lemma filterStep_returns:
  assumes b: "bounded st" and rd: "readArray (heap st) arr = Some ps"
  shows "returns (filterStep sl cb arr) st
           (\<lambda>d st'. readArray (heap st') d = Some (if sl then filter cb ps else ps))"
proof (cases sl)
  case True
  then show ?thesis using filterArray_returns[OF b rd] by (simp add: filterStep_def)
next
  case False
  have run: "succeed arr st = (Inr arr, st)"
    by (simp add: succeed_def)
  have "returns (succeed arr) st (\<lambda>d st'. readArray (heap st') d = Some ps)"
    using safe_succeed b run rd by (rule returnsI)
  then show ?thesis using False by (simp add: filterStep_def)
qed

lemma alloc_series_returns:
  assumes b: "bounded st" and rd: "readArray (heap st) d = Some ps"
  shows "returns (alloc (SeriesObj lbl col d)) st
           (\<lambda>u st'. readSeries (heap st') u = Some \<lparr>label = lbl, color = col, data = ps\<rparr>)"
proof -
  let ?st' = "st\<lparr>heap := (heap st)(fresh st \<mapsto> SeriesObj lbl col d), fresh := Suc (fresh st)\<rparr>"
  have run: "alloc (SeriesObj lbl col d) st = (Inr (fresh st), ?st')"
    by (simp add: alloc_def)
  have ext: "extends (heap st) (heap ?st')"
    using b by (auto simp: bounded_def extends_def)
  have "readArray (heap ?st') d = Some ps"
    using ext rd by (rule readArray_extends)
  then have "readSeries (heap ?st') (fresh st) = Some \<lparr>label = lbl, color = col, data = ps\<rparr>"
    by (simp add: readSeries_def)
  then show ?thesis
    using safe_alloc b run by (rule returnsI[rotated 3])
qed

lemma filterOne_returns:
  assumes b: "bounded st" and rd: "readSeries (heap st) r = Some v"
  shows "returns (filterOne tz sel r) st
           (\<lambda>u st'. readSeries (heap st') u = Some (filterDataset tz sel v))"
proof -
  obtain lbl col d ps where c: "heap st r = Some (SeriesObj lbl col d)"
    and ps: "readArray (heap st) d = Some ps" and v: "v = \<lparr>label = lbl, color = col, data = ps\<rparr>"
    using rd by (auto simp: readSeries_def split: option.splits obj.splits)
  define ps1 where "ps1 = filterByYear tz (selectedYear sel) ps"
  define ps2 where "ps2 = filterByQuarter tz (selectedQuarter sel) ps1"
  define ps3 where "ps3 = filterByMonth tz (selectedMonth sel) ps2"
  let ?Q = "\<lambda>u st'. readSeries (heap st') u = Some (filterDataset tz sel v)"
  let ?step3 = "\<lambda>fd. andThen (filterStep (selectedMonth sel \<noteq> ''all'')
                     (monthCallback tz (fst (monthPair (selectedMonth sel)))
                        (snd (monthPair (selectedMonth sel)))) fd) (\<lambda>filteredData.
          alloc (SeriesObj lbl col filteredData))"
  let ?step2 = "\<lambda>fd. andThen (filterStep (selectedQuarter sel \<noteq> ''all'')
                     (quarterCallback tz (selectedQuarter sel)) fd) ?step3"
  let ?chain = "andThen (filterStep (selectedYear sel \<noteq> ''all'')
                     (yearCallback tz (selectedYear sel)) d) ?step2"
  have res: "filterDataset tz sel v = \<lparr>label = lbl, color = col, data = ps3\<rparr>"
    by (simp add: filterDataset_def v ps1_def ps2_def ps3_def)
  have last: "returns (alloc (SeriesObj lbl col d3)) st3 ?Q"
    if "bounded st3" "readArray (heap st3) d3 = Some ps3" for d3 st3
    unfolding res using that by (rule alloc_series_returns)
  have s3: "returns (?step3 d2) st2 ?Q"
    if b2: "bounded st2" and r2: "readArray (heap st2) d2 = Some ps2" for d2 st2
  proof (rule returns_andThen, rule returns_weaken)
    show "returns (filterStep (selectedMonth sel \<noteq> ''all'')
             (monthCallback tz (fst (monthPair (selectedMonth sel)))
                (snd (monthPair (selectedMonth sel)))) d2) st2
           (\<lambda>d st'. readArray (heap st') d =
              Some (if selectedMonth sel \<noteq> ''all''
                    then filter (monthCallback tz (fst (monthPair (selectedMonth sel)))
                           (snd (monthPair (selectedMonth sel)))) ps2 else ps2))"
      using b2 r2 by (rule filterStep_returns)
  next
    fix d3 st3
    assume "bounded st3" and "readArray (heap st3) d3 =
              Some (if selectedMonth sel \<noteq> ''all''
                    then filter (monthCallback tz (fst (monthPair (selectedMonth sel)))
                           (snd (monthPair (selectedMonth sel)))) ps2 else ps2)"
    then show "returns (alloc (SeriesObj lbl col d3)) st3 ?Q"
      by (intro last) (simp_all add: ps3_def filterByMonth_def case_prod_beta)
  qed
  have s2: "returns (?step2 d1) st1 ?Q"
    if b1: "bounded st1" and r1: "readArray (heap st1) d1 = Some ps1" for d1 st1
  proof (rule returns_andThen, rule returns_weaken)
    show "returns (filterStep (selectedQuarter sel \<noteq> ''all'')
             (quarterCallback tz (selectedQuarter sel)) d1) st1
           (\<lambda>d st'. readArray (heap st') d =
              Some (if selectedQuarter sel \<noteq> ''all''
                    then filter (quarterCallback tz (selectedQuarter sel)) ps1 else ps1))"
      using b1 r1 by (rule filterStep_returns)
  next
    fix d2 st2
    assume "bounded st2" and "readArray (heap st2) d2 =
              Some (if selectedQuarter sel \<noteq> ''all''
                    then filter (quarterCallback tz (selectedQuarter sel)) ps1 else ps1)"
    then show "returns (?step3 d2) st2 ?Q"
      by (intro s3) (simp_all add: ps2_def filterByQuarter_def)
  qed
  have s1: "returns ?chain st ?Q"
  proof (rule returns_andThen, rule returns_weaken)
    show "returns (filterStep (selectedYear sel \<noteq> ''all'')
             (yearCallback tz (selectedYear sel)) d) st
           (\<lambda>d st'. readArray (heap st') d =
              Some (if selectedYear sel \<noteq> ''all''
                    then filter (yearCallback tz (selectedYear sel)) ps else ps))"
      using b ps by (rule filterStep_returns)
  next
    fix d1 st1
    assume "bounded st1" and "readArray (heap st1) d1 =
              Some (if selectedYear sel \<noteq> ''all''
                    then filter (yearCallback tz (selectedYear sel)) ps else ps)"
    then show "returns (?step2 d1) st1 ?Q"
      by (intro s2) (simp_all add: ps1_def filterByYear_def)
  qed
  have "filterOne tz sel r st = ?chain st"
    using c by (simp add: filterOne_def)
  then show ?thesis
    using s1 by (simp add: returns_def)
qed

lemma returnsE:
  assumes "returns m st Q"
  obtains a st' where "m st = (Inr a, st')" "framed st st'" "bounded st'" "Q a st'"
  using assms unfolding returns_def by blast

lemma formatDatasetsForChart_single:
  "color w \<noteq> None \<Longrightarrow> \<exists>fs. formatDatasetsForChart [w] = Inr fs"
  by (auto simp: formatDataset_def)

lemma color_filterDataset: "color (filterDataset tz sel v) = color v"
  by (simp add: filterDataset_def)

lemma updateChart_returns:
  assumes b: "bounded st" and rd: "readSeries (heap st) u = Some (filterDataset tz sel v)"
    and col: "color v \<noteq> None"
  shows "returns (updateChart i u) st
           (\<lambda>_ st'. heap st' = heap st \<and>
              chartsUpdated tz sel i [v] (chartInstances st) (chartInstances st'))"
proof -
  obtain fs where fs: "formatDatasetsForChart [filterDataset tz sel v] = Inr fs"
    using formatDatasetsForChart_single[of "filterDataset tz sel v"] col
    by (auto simp: color_filterDataset)
  show ?thesis
  proof (cases "i < length (chartInstances st)")
    case True
    let ?st' = "st\<lparr>chartInstances := (chartInstances st)[i := fs]\<rparr>"
    have run: "updateChart i u st = (Inr (), ?st')"
      using True rd fs by (simp add: updateChart_def succeed_def)
    have "chartsUpdated tz sel i [v] (chartInstances st) (chartInstances ?st')"
      using fs by (auto simp: chartsUpdated_def nth_list_update)
    then have "heap ?st' = heap st \<and>
        chartsUpdated tz sel i [v] (chartInstances st) (chartInstances ?st')"
      by simp
    then show ?thesis
      using safe_updateChart b run by (rule returnsI[rotated 3])
  next
    case False
    have run: "updateChart i u st = (Inr (), st)"
      using False by (simp add: updateChart_def succeed_def)
    have "heap st = heap st \<and> chartsUpdated tz sel i [v] (chartInstances st) (chartInstances st)"
      using False by (auto simp: chartsUpdated_def)
    then show ?thesis
      using safe_updateChart b run by (rule returnsI[rotated 3])
  qed
qed

lemma those_map_Cons:
  "those (map f (r # rs)) = Some vs \<Longrightarrow>
     \<exists>v vs'. vs = v # vs' \<and> f r = Some v \<and> those (map f rs) = Some vs'"
  by (auto split: option.splits)

lemma those_map_append:
  "those (map f as) = Some us \<Longrightarrow> those (map f bs) = Some vs \<Longrightarrow>
     those (map f (as @ bs)) = Some (us @ vs)"
proof (induction as arbitrary: us)
  case Nil
  then show ?case by simp
next
  case (Cons a as)
  then obtain u us' where "us = u # us'" "f a = Some u" "those (map f as) = Some us'"
    using those_map_Cons[of f a as us] by blast
  then show ?case using Cons.IH[of us'] Cons.prems(2) by simp
qed

lemma chartsUpdated_step:
  assumes 1: "chartsUpdated tz sel i [v] c0 c1"
    and 2: "chartsUpdated tz sel (Suc i) vs c1 c2"
  shows "chartsUpdated tz sel i (v # vs) c0 c2"
  unfolding chartsUpdated_def
proof (intro conjI allI impI)
  show "length c2 = length c0"
    using 1 2 by (simp add: chartsUpdated_def)
next
  fix j assume j: "j < length c0"
  then have j1: "j < length c1" using 1 by (simp add: chartsUpdated_def)
  have a: "if i \<le> j \<and> j < i + length [v]
         then formatDatasetsForChart [filterDataset tz sel ([v] ! (j - i))] = Inr (c1 ! j)
         else c1 ! j = c0 ! j"
    using 1 j unfolding chartsUpdated_def by blast
  have b: "if Suc i \<le> j \<and> j < Suc i + length vs
         then formatDatasetsForChart [filterDataset tz sel (vs ! (j - Suc i))] = Inr (c2 ! j)
         else c2 ! j = c1 ! j"
    using 2 j1 unfolding chartsUpdated_def by blast
  consider "j < i" | "j = i" | "Suc i \<le> j" "j < Suc i + length vs" | "Suc i + length vs \<le> j"
    by linarith
  then show "if i \<le> j \<and> j < i + length (v # vs)
         then formatDatasetsForChart [filterDataset tz sel ((v # vs) ! (j - i))] = Inr (c2 ! j)
         else c2 ! j = c0 ! j"
  proof cases
    case 1
    then show ?thesis using a b by simp
  next
    case 2
    then show ?thesis using a b by simp
  next
    case 3
    then have "(v # vs) ! (j - i) = vs ! (j - Suc i)"
      by (simp add: nth_Cons')
    then show ?thesis using 3 b by simp
  next
    case 4
    then show ?thesis using a b by simp
  qed
qed

lemma charts_andThen:
  assumes "\<And>st. chartInstances (snd (m st)) = chartInstances st"
    and "\<And>a st. chartInstances (snd (f a st)) = chartInstances st"
  shows "chartInstances (snd (andThen m f st)) = chartInstances st"
proof -
  obtain r st' where m: "m st = (r, st')" by (cases "m st")
  have 1: "chartInstances st' = chartInstances st"
    using assms(1)[of st] m by simp
  show ?thesis
  proof (cases r)
    case (Inl e)
    then show ?thesis using m 1 by (simp add: andThen_def)
  next
    case (Inr a)
    then show ?thesis using m 1 assms(2)[of a st'] by (simp add: andThen_def)
  qed
qed

lemma charts_alloc: "chartInstances (snd (alloc ob st)) = chartInstances st"
  by (simp add: alloc_def)

lemma charts_filterStep: "chartInstances (snd (filterStep sl cb arr st)) = chartInstances st"
  by (simp add: filterStep_def filterArray_def alloc_def throw_def succeed_def
      split: option.splits)

lemma charts_filterOne: "chartInstances (snd (filterOne tz sel r st)) = chartInstances st"
proof (cases "\<exists>lbl col d. heap st r = Some (SeriesObj lbl col d)")
  case True
  then obtain lbl col d where c: "heap st r = Some (SeriesObj lbl col d)" by blast
  show ?thesis
    unfolding filterOne_def c option.case obj.case
    by (intro charts_andThen charts_filterStep charts_alloc)
next
  case False
  then have "filterOne tz sel r st = throw TypeError st"
    by (auto simp: filterOne_def split: option.splits obj.splits)
  then show ?thesis by (simp add: throw_def)
qed

lemma forEachDataset_returns:
  assumes "bounded st"
    and "those (map (readSeries (heap st)) rs) = Some vs"
    and "\<forall>w \<in> set vs. color w \<noteq> None"
  shows "returns (forEachDataset tz sel rs i fds) st
           (\<lambda>us st'. \<exists>new. us = fds @ new \<and>
              those (map (readSeries (heap st')) new) = Some (map (filterDataset tz sel) vs) \<and>
              chartsUpdated tz sel i vs (chartInstances st) (chartInstances st'))"
  using assms
proof (induction rs arbitrary: st vs i fds)
  case Nil
  have run: "forEachDataset tz sel [] i fds st = (Inr fds, st)"
    by (simp add: succeed_def)
  have vs: "vs = []" using Nil.prems(2) by simp
  have "\<exists>new. fds = fds @ new \<and>
      those (map (readSeries (heap st)) new) = Some (map (filterDataset tz sel) vs) \<and>
      chartsUpdated tz sel i vs (chartInstances st) (chartInstances st)"
    unfolding vs by (intro exI[of _ "[]"]) (auto simp: chartsUpdated_def)
  then show ?case
    using safe_forEachDataset Nil.prems(1) run by (rule returnsI[rotated 3])
next
  case (Cons r rs)
  obtain v vs' where vs: "vs = v # vs'" and rv: "readSeries (heap st) r = Some v"
    and rest: "those (map (readSeries (heap st)) rs) = Some vs'"
    using those_map_Cons[OF Cons.prems(2)] by blast
  have colv: "color v \<noteq> None" and cols: "\<forall>w \<in> set vs'. color w \<noteq> None"
    using Cons.prems(3) vs by simp_all
  obtain u st1 where run1: "filterOne tz sel r st = (Inr u, st1)" and f1: "framed st st1"
    and b1: "bounded st1" and ru: "readSeries (heap st1) u = Some (filterDataset tz sel v)"
    using filterOne_returns[OF Cons.prems(1) rv, of tz sel] by (rule returnsE)
  obtain st2 where run2: "updateChart i u st1 = (Inr (), st2)" and f2: "framed st1 st2"
    and b2: "bounded st2" and h2: "heap st2 = heap st1"
    and c2: "chartsUpdated tz sel i [v] (chartInstances st1) (chartInstances st2)"
    using updateChart_returns[OF b1 ru colv, of i] by (rule returnsE) auto
  have f02: "framed st st2" using f1 f2 by (rule framed_trans)
  have e02: "extends (heap st) (heap st2)"
    using Cons.prems(1) f02 by (rule framed_extends)
  have rest2: "those (map (readSeries (heap st2)) rs) = Some vs'"
    using readSeries_extends[OF e02] rest by (rule those_map_mono)
  obtain us st3 new where run3: "forEachDataset tz sel rs (Suc i) (fds @ [u]) st2 = (Inr us, st3)"
    and f3: "framed st2 st3" and b3: "bounded st3" and us: "us = (fds @ [u]) @ new"
    and rn: "those (map (readSeries (heap st3)) new) = Some (map (filterDataset tz sel) vs')"
    and c3: "chartsUpdated tz sel (Suc i) vs' (chartInstances st2) (chartInstances st3)"
    using Cons.IH[OF b2 rest2 cols, of "Suc i" "fds @ [u]"] by (rule returnsE) auto
  have e23: "extends (heap st2) (heap st3)"
    using b2 f3 by (rule framed_extends)
  have ru3: "readSeries (heap st3) u = Some (filterDataset tz sel v)"
    using e23 ru[folded h2] by (rule readSeries_extends)
  have "filterOne tz sel r st = (Inr u, st1)" by (rule run1)
  have run: "forEachDataset tz sel (r # rs) i fds st = (Inr us, st3)"
    using run1 run2 run3 by (simp add: andThen_def)
  have cst: "chartInstances st1 = chartInstances st"
    using charts_filterOne[of tz sel r st] run1 by simp
  have c02: "chartsUpdated tz sel i (v # vs') (chartInstances st) (chartInstances st3)"
    using c2[unfolded cst] c3 by (rule chartsUpdated_step)
  have "those (map (readSeries (heap st3)) [u]) = Some [filterDataset tz sel v]"
    using ru3 by simp
  then have "those (map (readSeries (heap st3)) ([u] @ new)) =
      Some ([filterDataset tz sel v] @ map (filterDataset tz sel) vs')"
    using rn by (rule those_map_append)
  then have "\<exists>new'. us = fds @ new' \<and>
      those (map (readSeries (heap st3)) new') = Some (map (filterDataset tz sel) vs) \<and>
      chartsUpdated tz sel i vs (chartInstances st) (chartInstances st3)"
    using us c02 unfolding vs by (intro exI[of _ "[u] @ new"]) simp
  then show ?case
    using safe_forEachDataset Cons.prems(1) run by (rule returnsI[rotated 3])
qed

lemma handleFilterChange_returns:
  assumes b: "bounded st" and ld: "loaded st = Some src"
    and col: "\<forall>w \<in> set src. color w \<noteq> None"
  shows "returns (handleFilterChange tz sel) st
           (\<lambda>_ st'. loaded st' = Some src \<and>
              summaryChart st' = normalizeAndFormatData (filterDatasets tz sel src) \<and>
              aggregateChart st' =
                createAggregateData (normalizeAndFormatData (filterDatasets tz sel src)) \<and>
              chartsUpdated tz sel 0 src (chartInstances st) (chartInstances st'))"
proof -
  have rd: "those (map (readSeries (heap st)) (allData st)) = Some src"
    using ld by (simp add: loaded_def)
  obtain us st1 new where run1: "forEachDataset tz sel (allData st) 0 [] st = (Inr us, st1)"
    and f1: "framed st st1" and b1: "bounded st1" and us: "us = [] @ new"
    and rn: "those (map (readSeries (heap st1)) new) = Some (map (filterDataset tz sel) src)"
    and c1: "chartsUpdated tz sel 0 src (chartInstances st) (chartInstances st1)"
    using forEachDataset_returns[OF b rd col, of tz sel 0 "[]"] by (rule returnsE) auto
  let ?n = "normalizeAndFormatData (filterDatasets tz sel src)"
  let ?st2 = "st1\<lparr>summaryChart := ?n, aggregateChart := createAggregateData ?n\<rparr>"
  have run2: "updateSummaryAndAggregate us st1 = (Inr (), ?st2)"
    using rn us by (simp add: updateSummaryAndAggregate_def succeed_def filterDatasets_def Let_def)
  have run: "handleFilterChange tz sel st = (Inr (), ?st2)"
    using run1 run2 by (simp add: handleFilterChange_def andThen_def)
  have e: "extends (heap st) (heap st1)"
    using b f1 by (rule framed_extends)
  have "those (map (readSeries (heap st1)) (allData st)) = Some src"
    using readSeries_extends[OF e] rd by (rule those_map_mono)
  then have "loaded ?st2 = Some src"
    using f1 by (simp add: loaded_def framed_def)
  then have "loaded ?st2 = Some src \<and> summaryChart ?st2 = ?n \<and>
      aggregateChart ?st2 = createAggregateData ?n \<and>
      chartsUpdated tz sel 0 src (chartInstances st) (chartInstances ?st2)"
    using c1 by simp
  then show ?thesis
    using safe_handleFilterChange b run by (rule returnsI[rotated 3])
qed

text \<open>
  C8. Whatever the selection and whether the call returns or throws,
  \<open>handleFilterChange\<close> leaves \<^verbatim>\<open>allData.datasets\<close> and every object that was in the
  store before the call as they were: the series, their arrays and their points. In a
  state where the document is loaded (every series with its colour) the call returns,
  the loaded series read as before, and the summary and aggregate charts hold the
  normalization and the aggregate of the loaded series filtered by the selection. A
  further call, under any selection, computes its views from the same loaded series
  again, not from the series the call before had filtered.
\<close>

theorem handleFilterChange_keeps_source:
  "(\<forall>a < fresh st. heap (snd (handleFilterChange tz sel st)) a = heap st a) \<and>
   allData (snd (handleFilterChange tz sel st)) = allData st \<and>
   (bounded st \<and> loaded st = Some src \<and> (\<forall>w \<in> set src. color w \<noteq> None) \<longrightarrow>
      (\<exists>st'. handleFilterChange tz sel st = (Inr (), st') \<and>
         loaded st' = Some src \<and>
         summaryChart st' = normalizeAndFormatData (filterDatasets tz sel src) \<and>
         aggregateChart st' =
           createAggregateData (normalizeAndFormatData (filterDatasets tz sel src)) \<and>
         chartsUpdated tz sel 0 src (chartInstances st) (chartInstances st') \<and>
         (\<forall>sel'. \<exists>st''. handleFilterChange tz sel' st' = (Inr (), st'') \<and>
            loaded st'' = Some src \<and>
            summaryChart st'' = normalizeAndFormatData (filterDatasets tz sel' src) \<and>
            aggregateChart st'' =
              createAggregateData (normalizeAndFormatData (filterDatasets tz sel' src)))))"
proof -
  have fr: "framed st (snd (handleFilterChange tz sel st))"
    using safeD[OF safe_handleFilterChange] by blast
  have once: "\<exists>st'. handleFilterChange tz s st0 = (Inr (), st') \<and> bounded st' \<and>
         loaded st' = Some src \<and>
         summaryChart st' = normalizeAndFormatData (filterDatasets tz s src) \<and>
         aggregateChart st' =
           createAggregateData (normalizeAndFormatData (filterDatasets tz s src)) \<and>
         chartsUpdated tz s 0 src (chartInstances st0) (chartInstances st')"
    if "bounded st0" "loaded st0 = Some src" "\<forall>w \<in> set src. color w \<noteq> None" for s st0
    using handleFilterChange_returns[OF that, of tz s] unfolding returns_def by auto
  have twice: "\<exists>st'. handleFilterChange tz sel st = (Inr (), st') \<and>
         loaded st' = Some src \<and>
         summaryChart st' = normalizeAndFormatData (filterDatasets tz sel src) \<and>
         aggregateChart st' =
           createAggregateData (normalizeAndFormatData (filterDatasets tz sel src)) \<and>
         chartsUpdated tz sel 0 src (chartInstances st) (chartInstances st') \<and>
         (\<forall>sel'. \<exists>st''. handleFilterChange tz sel' st' = (Inr (), st'') \<and>
            loaded st'' = Some src \<and>
            summaryChart st'' = normalizeAndFormatData (filterDatasets tz sel' src) \<and>
            aggregateChart st'' =
              createAggregateData (normalizeAndFormatData (filterDatasets tz sel' src)))"
    if h: "bounded st" "loaded st = Some src" "\<forall>w \<in> set src. color w \<noteq> None"
  proof -
    obtain st' where 1: "handleFilterChange tz sel st = (Inr (), st')" "bounded st'"
      "loaded st' = Some src"
      "summaryChart st' = normalizeAndFormatData (filterDatasets tz sel src)"
      "aggregateChart st' =
           createAggregateData (normalizeAndFormatData (filterDatasets tz sel src))"
      "chartsUpdated tz sel 0 src (chartInstances st) (chartInstances st')"
      using once[OF h] by blast
    have "\<exists>st''. handleFilterChange tz sel' st' = (Inr (), st'') \<and>
            loaded st'' = Some src \<and>
            summaryChart st'' = normalizeAndFormatData (filterDatasets tz sel' src) \<and>
            aggregateChart st'' =
              createAggregateData (normalizeAndFormatData (filterDatasets tz sel' src))" for sel'
      using once[OF 1(2,3) h(3), of sel'] by blast
    then show ?thesis using 1 by blast
  qed
  show ?thesis
    using fr twice unfolding framed_def by blast
qed

theorem handleFilterChange_keeps_source_witness:
  "bounded sampleState \<and>
   loaded sampleState = Some [seriesA] \<and>
   fst (handleFilterChange (\<lambda>t. 0) firstQuarter sampleState) = Inr () \<and>
   map (heap (snd (handleFilterChange (\<lambda>t. 0) firstQuarter sampleState))) [0, 1, 2, 3, 4] =
     map (heap sampleState) [0, 1, 2, 3, 4] \<and>
   loaded (snd (handleFilterChange (\<lambda>t. 0) firstQuarter sampleState)) = Some [seriesA] \<and>
   summaryChart (snd (handleFilterChange (\<lambda>t. 0) firstQuarter sampleState)) =
     [\<lparr>label = ''Commits'', color = None,
       data = [\<lparr>x = ''2023-01-01'', y = Finite 50, originalValue = 10\<rparr>]\<rparr>] \<and>
   summaryChart (snd (handleFilterChange (\<lambda>t. 0) noFilter
       (snd (handleFilterChange (\<lambda>t. 0) firstQuarter sampleState)))) =
     [\<lparr>label = ''Commits'', color = None,
       data = [\<lparr>x = ''2023-01-01'', y = Finite 0, originalValue = 10\<rparr>,
               \<lparr>x = ''2023-06-01'', y = Finite 100, originalValue = 30\<rparr>,
               \<lparr>x = ''2023-12-01'', y = Finite 50, originalValue = 20\<rparr>]\<rparr>]"
proof -
  have b: "bounded sampleState"
    by (simp add: bounded_def sampleState_def)
  have ld: "loaded sampleState = Some [seriesA]"
    by (simp add: loaded_def readSeries_def readArray_def arrayRefs_def readPoint_def
        sampleState_def seriesA_def)
  have col: "\<forall>w \<in> set [seriesA]. color w \<noteq> None"
    by (simp add: seriesA_def)
  have f1: "filterDatasets (\<lambda>t. 0) firstQuarter [seriesA] =
      [\<lparr>label = ''Commits'', color = Some ''rgba(0, 123, 255, 1)'',
        data = [\<lparr>date = ''2023-01-01'', val = 10\<rparr>]\<rparr>]"
    by (simp add: filterDatasets_def filterDataset_def filterByYear_def filterByQuarter_def
        filterByMonth_def quarterCallback_def getQuarter_def firstQuarter_def seriesA_def
        toString_def digits_of.simps digit_char_def date_eval)
  have f2: "filterDatasets (\<lambda>t. 0) noFilter [seriesA] = [seriesA]"
    by (simp add: filterDatasets_def filterDataset_def filterByYear_def filterByQuarter_def
        filterByMonth_def noFilter_def)
  have n1: "normalizeAndFormatData (filterDatasets (\<lambda>t. 0) firstQuarter [seriesA]) =
     [\<lparr>label = ''Commits'', color = None,
       data = [\<lparr>x = ''2023-01-01'', y = Finite 50, originalValue = 10\<rparr>]\<rparr>]"
    unfolding f1
    by (simp add: normalizeAndFormatData_def normalizeDataset_def normalizePoint_def
        Math_min_def Math_max_def)
  have n2: "normalizeAndFormatData (filterDatasets (\<lambda>t. 0) noFilter [seriesA]) =
     [\<lparr>label = ''Commits'', color = None,
       data = [\<lparr>x = ''2023-01-01'', y = Finite 0, originalValue = 10\<rparr>,
               \<lparr>x = ''2023-06-01'', y = Finite 100, originalValue = 30\<rparr>,
               \<lparr>x = ''2023-12-01'', y = Finite 50, originalValue = 20\<rparr>]\<rparr>]"
    unfolding f2
    by (simp add: normalizeAndFormatData_def normalizeDataset_def normalizePoint_def
        Math_min_def Math_max_def seriesA_def number_eval)
  note inst = handleFilterChange_keeps_source[of sampleState "\<lambda>t. 0" firstQuarter "[seriesA]"]
  have same: "\<forall>a < fresh sampleState.
      heap (snd (handleFilterChange (\<lambda>t. 0) firstQuarter sampleState)) a = heap sampleState a"
    using inst by blast
  have "fresh sampleState = 5" by (simp add: sampleState_def)
  then have cells: "map (heap (snd (handleFilterChange (\<lambda>t. 0) firstQuarter sampleState)))
      [0, 1, 2, 3, 4] = map (heap sampleState) [0, 1, 2, 3, 4]"
    using same by simp
  obtain st' where run: "handleFilterChange (\<lambda>t. 0) firstQuarter sampleState = (Inr (), st')"
    and ld': "loaded st' = Some [seriesA]"
    and s1: "summaryChart st' =
      normalizeAndFormatData (filterDatasets (\<lambda>t. 0) firstQuarter [seriesA])"
    and again: "\<forall>sel'. \<exists>st''. handleFilterChange (\<lambda>t. 0) sel' st' = (Inr (), st'') \<and>
            loaded st'' = Some [seriesA] \<and>
            summaryChart st'' = normalizeAndFormatData (filterDatasets (\<lambda>t. 0) sel' [seriesA]) \<and>
            aggregateChart st'' =
              createAggregateData (normalizeAndFormatData (filterDatasets (\<lambda>t. 0) sel' [seriesA]))"
    using inst b ld col by blast
  obtain st'' where run2: "handleFilterChange (\<lambda>t. 0) noFilter st' = (Inr (), st'')"
    and s2: "summaryChart st'' =
      normalizeAndFormatData (filterDatasets (\<lambda>t. 0) noFilter [seriesA])"
    using again by blast
  show ?thesis
    using b ld cells ld' s1 s2 by (simp add: run run2 n1 n2)
qed

end
